theory Spec2Isabelle
  imports Main "HOL-Library.Sublist"
begin

section \<open>Host editor: buffer, regions, lines\<close>

text \<open>
  The plugin works on a Sublime Text view. The view is modelled by the data the plugin
  reads: the buffer text, the file name, the primary selection \<open>view.sel()[0]\<close> and the
  scope name the host assigns to each buffer position. Positions are Python integers.
  A character of the buffer is a \<open>char\<close>, read as a code point below 256.
  The host's \<open>scope_name\<close> and \<open>sublime.score_selector\<close> are parameters: the first a
  field of the view, total on the integers, the second an argument of the functions that
  call it. A function that can raise returns \<open>error + 'a\<close>, with \<open>Inl\<close> the exception.
\<close>

datatype Region = Region int int

fun rbegin :: "Region \<Rightarrow> int" where
  "rbegin (Region a b) = min a b"

fun rend :: "Region \<Rightarrow> int" where
  "rend (Region a b) = max a b"

fun rsize :: "Region \<Rightarrow> int" where
  "rsize (Region a b) = \<bar>b - a\<bar>"

fun rempty :: "Region \<Rightarrow> bool" where
  "rempty (Region a b) = (a = b)"

record view =
  buffer :: string
  file_name :: "string option"
  sel0 :: Region
  scope_name :: "int \<Rightarrow> string"

abbreviation NL :: char where
  "NL \<equiv> CHR 0x0A"

text \<open>Start of the line holding offset \<open>p\<close>: one past the last newline before \<open>p\<close>.\<close>

definition line_begin :: "string \<Rightarrow> nat \<Rightarrow> nat" where
  "line_begin s p =
     (let pre = take p s in length pre - length (takeWhile (\<lambda>c. c \<noteq> NL) (rev pre)))"

text \<open>End of the line holding offset \<open>p\<close>: the next newline at or after \<open>p\<close>, or the buffer's end.\<close>

definition line_end :: "string \<Rightarrow> nat \<Rightarrow> nat" where
  "line_end s p =
     (let q = min p (length s) in q + length (takeWhile (\<lambda>c. c \<noteq> NL) (drop q s)))"

text \<open>\<open>view.line(pos)\<close>: the region of the line at \<open>pos\<close>, without its newline.\<close>

definition view_line :: "view \<Rightarrow> int \<Rightarrow> Region" where
  "view_line v pos =
     Region (int (line_begin (buffer v) (nat pos))) (int (line_end (buffer v) (nat pos)))"

text \<open>\<open>view.substr(region)\<close>.\<close>

definition view_substr :: "view \<Rightarrow> Region \<Rightarrow> string" where
  "view_substr v r = take (nat (rend r) - nat (rbegin r)) (drop (nat (rbegin r)) (buffer v))"

text \<open>\<open>view.rowcol(pos)[1]\<close>: the column of \<open>pos\<close> on its line.\<close>

definition view_col :: "view \<Rightarrow> int \<Rightarrow> int" where
  "view_col v pos = pos - int (line_begin (buffer v) (nat pos))"

text \<open>
  \<open>view.replace(edit, region, s)\<close>, \<open>view.erase(edit, region)\<close> and
  \<open>view.insert(edit, pos, s)\<close> on the buffer. After \<open>replace\<close> of the primary selection
  the selection covers the text put in; after \<open>erase\<close> it collapses to the region's start.
\<close>

definition view_replace_sel :: "view \<Rightarrow> string \<Rightarrow> view" where
  "view_replace_sel v s =
     (let b = rbegin (sel0 v); e = rend (sel0 v) in
      v\<lparr>buffer := take (nat b) (buffer v) @ s @ drop (nat e) (buffer v),
        sel0 := Region b (b + int (length s))\<rparr>)"

definition view_erase_sel :: "view \<Rightarrow> view" where
  "view_erase_sel v =
     (let b = rbegin (sel0 v); e = rend (sel0 v) in
      v\<lparr>buffer := take (nat b) (buffer v) @ drop (nat e) (buffer v), sel0 := Region b b\<rparr>)"

definition view_insert :: "view \<Rightarrow> int \<Rightarrow> string \<Rightarrow> view" where
  "view_insert v pos s =
     v\<lparr>buffer := take (nat pos) (buffer v) @ s @ drop (nat pos) (buffer v)\<rparr>"

section \<open>Regular expressions of the plugin\<close>

text \<open>
  \<open>\s\<close> of a Python 3 \<open>str\<close> pattern, on code points below 256: the characters for
  which \<open>str.isspace\<close> holds.
\<close>

definition is_space :: "char \<Rightarrow> bool" where
  "is_space c =
     (let n = (of_char c :: nat) in
      (9 \<le> n \<and> n \<le> 13) \<or> (28 \<le> n \<and> n \<le> 32) \<or> n = 133 \<or> n = 160)"

definition non_space :: "char \<Rightarrow> bool" where
  "non_space c = (\<not> is_space c)"

definition is_caret :: "char \<Rightarrow> bool" where
  "is_caret c = (c = CHR ''^'')"

definition non_quote :: "char \<Rightarrow> bool" where
  "non_quote c = (c \<noteq> CHR 0x22)"

text \<open>
  \<open>\s*(\S+)?$\<close> on the text after the closing quote. \<open>$\<close> matches at the end of the
  text and before a newline that ends it. The result is group 2.
\<close>

definition match_end_token :: "string \<Rightarrow> string option option" where
  "match_end_token r =
     (let r1 = dropWhile is_space r;
          g2 = takeWhile non_space r1;
          r2 = dropWhile non_space r1
      in if r2 = [] \<or> r2 = [NL] then Some (if g2 = [] then None else Some g2) else None)"

text \<open>
  \<open>re.match(r'^(\S+)\s+SYNTAX TEST\s+"[^"]+"\s*(\S+)?$', s)\<close>, in three steps. Each
  greedy piece is followed by a character it cannot consume, so the first attempt of the
  matcher is the only one that can succeed.

  \<open>"[^"]+"\s*(\S+)?$\<close>: the quoted description and what follows it; the result is
  group 2.
\<close>

definition match_description :: "string \<Rightarrow> string option option" where
  "match_description r =
     (case r of
        [] \<Rightarrow> None
      | q # r5 \<Rightarrow>
          if q \<noteq> CHR 0x22 then None
          else
            (let desc = takeWhile non_quote r5;
                 r6 = dropWhile non_quote r5
             in if desc = [] \<or> r6 = [] then None else match_end_token (tl r6)))"

text \<open>\<open>\s+SYNTAX TEST\s+\<close>, then the description.\<close>

definition match_keyword :: "string \<Rightarrow> string option option" where
  "match_keyword r1 =
     (let w1 = takeWhile is_space r1;
          r2 = dropWhile is_space r1
      in if w1 = [] \<or> \<not> prefix ''SYNTAX TEST'' r2 then None
         else
           (let r3 = drop 11 r2;
                w2 = takeWhile is_space r3;
                r4 = dropWhile is_space r3
            in if w2 = [] then None else match_description r4))"

text \<open>\<open>^(\S+)\<close>, then the rest: groups 1 and 2 of the match, or \<open>None\<close>.\<close>

definition match_declaration :: "string \<Rightarrow> (string \<times> string option) option" where
  "match_declaration s =
     (let g1 = takeWhile non_space s;
          r1 = dropWhile non_space s
      in if g1 = [] then None
         else (case match_keyword r1 of None \<Rightarrow> None | Some g2 \<Rightarrow> Some (g1, g2)))"

text \<open>
  The shape \<open><token> SYNTAX TEST "<desc>" [<endtoken>]\<close> in the spec's words: a token
  without whitespace, whitespace, the words, whitespace, a quoted description that is not
  empty and holds no quote, then optional whitespace and an optional end token without
  whitespace.
\<close>

definition declaration_shape :: "string \<Rightarrow> string \<Rightarrow> string option \<Rightarrow> bool" where
  "declaration_shape s tok etok =
     (\<exists>ws1 ws2 desc ws3 e.
        s = tok @ ws1 @ ''SYNTAX TEST'' @ ws2 @ [CHR 0x22] @ desc @ [CHR 0x22] @ ws3 @ e
        \<and> tok \<noteq> [] \<and> list_all non_space tok
        \<and> ws1 \<noteq> [] \<and> list_all is_space ws1
        \<and> ws2 \<noteq> [] \<and> list_all is_space ws2
        \<and> desc \<noteq> [] \<and> list_all non_quote desc
        \<and> list_all is_space ws3 \<and> list_all non_space e
        \<and> etok = (if e = [] then None else Some e))"

text \<open>
  \<open>re.match(r'^\s*(' + re.escape(tok) + r')', line)\<close>: the number of whitespace
  characters consumed, which is \<open>start(1)\<close>; \<open>end()\<close> is that plus the token's length.
  \<open>\s*\<close> is greedy and gives characters back when the token does not follow.
\<close>

fun match_comment_token :: "string \<Rightarrow> string \<Rightarrow> nat option" where
  "match_comment_token tok [] = (if tok = [] then Some 0 else None)"
| "match_comment_token tok (c # cs) =
     (case (if is_space c then match_comment_token tok cs else None) of
        Some k \<Rightarrow> Some (Suc k)
      | None \<Rightarrow> if prefix tok (c # cs) then Some 0 else None)"

text \<open>
  \<open>re.match(r'\s*(?:(<-)|(\^+))', rest)\<close>: group 1 matched, or group 2 with its
  \<open>start(2)\<close> and \<open>end(2)\<close>.
\<close>

datatype assertion_match = Arrow | Carets nat nat

definition match_assertion :: "string \<Rightarrow> assertion_match option" where
  "match_assertion rest =
     (let k = length (takeWhile is_space rest);
          r = dropWhile is_space rest;
          n = length (takeWhile is_caret r)
      in if prefix ''<-'' r then Some Arrow
         else if 0 < n then Some (Carets k (k + n))
         else None)"

text \<open>\<open>re.match(r'^\^+$', s) is not None\<close>.\<close>

definition match_only_carets :: "string \<Rightarrow> bool" where
  "match_only_carets s =
     (let n = length (takeWhile is_caret s); r = dropWhile is_caret s
      in 0 < n \<and> (r = [] \<or> r = [NL]))"

section \<open>Test-file detection and assertion lines\<close>

definition get_syntax_test_tokens :: "view \<Rightarrow> string option \<times> string option" where
  "get_syntax_test_tokens v =
     (let line = view_line v 0;
          m = (if rsize line < 1000 then match_declaration (view_substr v line) else None)
      in case m of None \<Rightarrow> (None, None) | Some (g1, g2) \<Rightarrow> (Some g1, g2))"

text \<open>\<open>os.path.basename\<close> (POSIX): the part after the last slash.\<close>

definition basename :: "string \<Rightarrow> string" where
  "basename p = rev (takeWhile (\<lambda>c. c \<noteq> CHR ''/'') (rev p))"

definition is_syntax_test_file :: "view \<Rightarrow> bool" where
  "is_syntax_test_file v =
     (case file_name v of
        Some name \<Rightarrow> prefix ''syntax_test_'' (basename name)
      | None \<Rightarrow> fst (get_syntax_test_tokens v) \<noteq> None)"

text \<open>
  \<open>AssertionLineDetails\<close>. The comment marker match is kept as \<open>(start(1), end())\<close>.
\<close>

record details =
  comment_marker_match :: "(int \<times> int) option"
  assertion_colrange :: "(int \<times> int) option"
  line_region :: "Region option"

definition no_details :: details where
  "no_details = \<lparr>comment_marker_match = None, assertion_colrange = None, line_region = None\<rparr>"

text \<open>Lines 55 to 65 of the source, on the text of one line.\<close>

definition parse_assertion_line :: "string \<Rightarrow> string \<Rightarrow> (int \<times> int) option \<times> (int \<times> int) option" where
  "parse_assertion_line tok line_text =
     (case match_comment_token tok line_text of
        None \<Rightarrow> (None, None)
      | Some k \<Rightarrow>
          (let m_start = int k; m_end = int k + int (length tok) in
           (Some (m_start, m_end),
            (case match_assertion (drop (nat m_end) line_text) of
               None \<Rightarrow> None
             | Some Arrow \<Rightarrow> Some (m_start, m_start)
             | Some (Carets s e) \<Rightarrow> Some (m_end + int s, m_end + int e)))))"

definition get_details_of_test_assertion_line :: "view \<Rightarrow> int \<Rightarrow> details" where
  "get_details_of_test_assertion_line v pos =
     (if \<not> is_syntax_test_file v then no_details
      else
        (case fst (get_syntax_test_tokens v) of
           None \<Rightarrow> no_details
         | Some tok \<Rightarrow>
             (let lr = view_line v pos;
                  line_text = view_substr v lr;
                  (m, colrange) = parse_assertion_line tok line_text
              in \<lparr>comment_marker_match = m, assertion_colrange = colrange,
                  line_region = Some lr\<rparr>)))"

section \<open>Walking up from the cursor\<close>

datatype error = IndexError | AttributeError | TypeError | UnboundLocalError

lemma line_begin_le: "line_begin s p \<le> p"
  by (simp add: line_begin_def Let_def)

lemma rbegin_view_line_le: "0 \<le> pos \<Longrightarrow> rbegin (view_line v pos) \<le> pos"
  using line_begin_le [of "buffer v" "nat pos"] by (simp add: view_line_def)

lemma line_region_details:
  "line_region (get_details_of_test_assertion_line v pos) = Some lr \<Longrightarrow> lr = view_line v pos"
  by (auto simp: get_details_of_test_assertion_line_def no_details_def Let_def
      split: if_splits option.splits prod.splits)

lemma walk_step_decreases:
  assumes "\<not> pos < 0" and "line_region (get_details_of_test_assertion_line v pos) = Some lr"
  shows "nat (rbegin lr) < nat (pos + 1)"
proof -
  from assms(2) have "lr = view_line v pos" by (rule line_region_details)
  with assms(1) have "rbegin lr \<le> pos" by (simp add: rbegin_view_line_le)
  with assms(1) show ?thesis by simp
qed

text \<open>
  The \<open>while pos >= 0\<close> loop of \<open>get_details_of_line_being_tested\<close>. \<open>prev\<close> is the
  variable \<open>details\<close>, unbound before the first iteration. Reading \<open>.begin()\<close> of a line
  region that is \<open>None\<close> raises.
\<close>

function walk_loop ::
  "view \<Rightarrow> int \<Rightarrow> bool \<Rightarrow> details list \<Rightarrow> details option \<Rightarrow> error + (details list \<times> Region option)"
where
  "walk_loop v pos first_line lines prev =
     (if pos < 0 then
        (case prev of None \<Rightarrow> Inl UnboundLocalError | Some d \<Rightarrow> Inr (lines, line_region d))
      else
        (let d = get_details_of_test_assertion_line v pos in
         case line_region d of
           None \<Rightarrow> Inl AttributeError
         | Some lr \<Rightarrow>
             if assertion_colrange d \<noteq> None then
               walk_loop v (rbegin lr - 1) False (lines @ [d]) (Some d)
             else if (\<not> first_line) \<or> comment_marker_match d = None then
               Inr (lines, line_region d)
             else if comment_marker_match d \<noteq> None then
               walk_loop v (rbegin lr - 1) False (lines @ [d]) (Some d)
             else walk_loop v (rbegin lr - 1) False lines (Some d)))"
  by pat_completeness auto
termination
  by (relation "measure (\<lambda>(v, pos, first_line, lines, prev). nat (pos + 1))")
    (auto dest: walk_step_decreases)

declare walk_loop.simps [simp del]

definition get_details_of_line_being_tested ::
  "view \<Rightarrow> error + (details list option \<times> Region option)" where
  "get_details_of_line_being_tested v =
     (if \<not> is_syntax_test_file v then Inr (None, None)
      else
        (case walk_loop v (rbegin (sel0 v)) True [] None of
           Inl e \<Rightarrow> Inl e
         | Inr (lines, line) \<Rightarrow> Inr (Some lines, line)))"

section \<open>The suggestion command\<close>

text \<open>\<open>str.split()\<close> with no argument: the maximal runs of non-whitespace characters.\<close>

fun split_acc :: "string \<Rightarrow> string \<Rightarrow> string list" where
  "split_acc cur [] = (if cur = [] then [] else [cur])"
| "split_acc cur (c # cs) =
     (if is_space c then (if cur = [] then split_acc [] cs else cur # split_acc [] cs)
      else split_acc (cur @ [c]) cs)"

definition split_ws :: "string \<Rightarrow> string list" where
  "split_ws s = split_acc [] s"

text \<open>\<open>' '.join(xs)\<close>.\<close>

fun join_sp :: "string list \<Rightarrow> string" where
  "join_sp [] = []"
| "join_sp [x] = x"
| "join_sp (x # y # ys) = x @ '' '' @ join_sp (y # ys)"

text \<open>
  Lines 146 to 151: the suffix holding the end token. \<open>lines[0]\<close> is read only when the
  document declares an end token.
\<close>

definition end_token_suffix :: "view \<Rightarrow> details list \<Rightarrow> error + string" where
  "end_token_suffix v lines =
     (case snd (get_syntax_test_tokens v) of
        None \<Rightarrow> Inr []
      | Some end_token \<Rightarrow>
          (case lines of
             [] \<Rightarrow> Inl IndexError
           | d # ds \<Rightarrow>
               (case line_region d of
                  None \<Rightarrow> Inl AttributeError
                | Some lr \<Rightarrow> Inr (if rend (sel0 v) = rend lr then '' '' @ end_token else []))))"

text \<open>
  Lines 156 to 162: the column the scan starts at, the flag \<open>test_at_start_of_comment\<close>
  and the lines kept for the merge.
\<close>

definition scan_setup :: "view \<Rightarrow> int \<Rightarrow> details list \<Rightarrow> error + (int \<times> bool \<times> details list)" where
  "scan_setup v insert_at lines =
     (case lines of
        [] \<Rightarrow> Inl IndexError
      | d # ds \<Rightarrow>
          (let col = view_col v insert_at;
               assertion_colrange = (case assertion_colrange d of Some cr \<Rightarrow> cr | None \<Rightarrow> (- 1, - 1))
           in if fst assertion_colrange = snd assertion_colrange
              then Inr (snd assertion_colrange, True, ds)
              else Inr (col, False, d # ds)))"

text \<open>
  Lines 164 to 173: the loop over \<open>range(line.begin() + col, line.end() + 1)\<close>, given
  the positions still to visit, the scopes collected and the length counted so far.
\<close>

fun scan_loop :: "(int \<Rightarrow> string) \<Rightarrow> bool \<Rightarrow> int list \<Rightarrow> string list \<Rightarrow> nat \<Rightarrow> string list \<times> nat" where
  "scan_loop sn test_at_start_of_comment [] scopes len = (scopes, len)"
| "scan_loop sn test_at_start_of_comment (pos # rest) scopes len =
     (let scope = sn pos in
      if 0 < length scopes \<and> scope \<noteq> hd scopes then (scopes, len)
      else
        (let scopes' = (if 0 < length scopes then scopes else scopes @ [scope]);
             len' = len + 1
         in if test_at_start_of_comment then (scopes', len')
            else scan_loop sn test_at_start_of_comment rest scopes' len'))"

definition scan_run :: "view \<Rightarrow> Region \<Rightarrow> int \<Rightarrow> bool \<Rightarrow> string list \<times> nat" where
  "scan_run v line col test_at_start_of_comment =
     scan_loop (scope_name v) test_at_start_of_comment [rbegin line + col..rend line] [] 0"

text \<open>
  Lines 176 to 181: the scopes under the assertion of \<open>lines[0]\<close>, over
  \<open>range(line.begin() + col_start, line.begin() + col_end)\<close>.
\<close>

fun merge_loop :: "(int \<Rightarrow> string) \<Rightarrow> int list \<Rightarrow> string list \<Rightarrow> string list" where
  "merge_loop sn [] scopes = scopes"
| "merge_loop sn (pos # rest) scopes =
     (let scope = sn pos in
      merge_loop sn rest (if List.member scopes scope then scopes else scopes @ [scope]))"

definition merge_scopes ::
  "view \<Rightarrow> Region \<Rightarrow> details list \<Rightarrow> bool \<Rightarrow> string list \<Rightarrow> error + string list" where
  "merge_scopes v line lines test_at_start_of_comment scopes =
     (if lines \<noteq> [] \<and> \<not> test_at_start_of_comment then
        (case assertion_colrange (hd lines) of
           None \<Rightarrow> Inl TypeError
         | Some (col_start, col_end) \<Rightarrow>
             Inr (merge_loop (scope_name v) [rbegin line + col_start..rbegin line + col_end - 1] scopes))
      else Inr scopes)"

text \<open>Lines 186 to 189. \<open>score\<close> is the host's \<open>sublime.score_selector\<close>.\<close>

definition shared_scopes :: "(string \<Rightarrow> string \<Rightarrow> int) \<Rightarrow> string list \<Rightarrow> error + string list" where
  "shared_scopes score scopes =
     (case scopes of
        [] \<Rightarrow> Inl IndexError
      | s0 # ss \<Rightarrow>
          Inr (filter (\<lambda>check_scope. list_all (\<lambda>scope. 0 < score scope check_scope) scopes)
                 (split_ws s0)))"

text \<open>Lines 193 to 197: the scope text, without the base scope when it leads.\<close>

definition scope_text :: "view \<Rightarrow> string list \<Rightarrow> error + string" where
  "scope_text v shared =
     (case shared of
        [] \<Rightarrow> Inl IndexError
      | s # ss \<Rightarrow>
          (case split_ws (scope_name v 0) of
             [] \<Rightarrow> Inl IndexError
           | base # bs \<Rightarrow> Inr (join_sp (drop (if s = base then 1 else 0) shared))))"

text \<open>Lines 199 to 211: the buffer and the selection after the insertion.\<close>

definition insert_suggestion :: "view \<Rightarrow> int \<Rightarrow> string \<Rightarrow> nat \<Rightarrow> string \<Rightarrow> string \<Rightarrow> view" where
  "insert_suggestion v insert_at character len scope end_token =
     (let v1 = (if \<not> rempty (sel0 v) then view_erase_sel v else v);
          v2 = view_insert v1 insert_at (concat (replicate len character) @ '' '' @ scope @ end_token)
      in v2\<lparr>sel0 := Region (insert_at + int len)
                 (insert_at + int len + int (length ('' '' @ scope @ end_token)))\<rparr>)"

text \<open>\<open>SuggestSyntaxTest.run\<close>: the view after the command, or the exception it raises.\<close>

definition suggest_after_trigger ::
  "(string \<Rightarrow> string \<Rightarrow> int) \<Rightarrow> view \<Rightarrow> string \<Rightarrow> error + view" where
  "suggest_after_trigger score v character =
     (let insert_at = rbegin (sel0 v) in
      if \<not> is_syntax_test_file v then Inr v
      else
        (case get_details_of_line_being_tested v of
           Inl e \<Rightarrow> Inl e
         | Inr (None, tested) \<Rightarrow> Inl TypeError
         | Inr (Some lines, tested) \<Rightarrow>
             (case end_token_suffix v lines of
                Inl e \<Rightarrow> Inl e
              | Inr end_token \<Rightarrow>
                  (case scan_setup v insert_at lines of
                     Inl e \<Rightarrow> Inl e
                   | Inr (col, test_at_start_of_comment, lines') \<Rightarrow>
                       (case tested of
                          None \<Rightarrow> Inl AttributeError
                        | Some line \<Rightarrow>
                            (let (scopes, len) = scan_run v line col test_at_start_of_comment in
                             case merge_scopes v line lines' test_at_start_of_comment scopes of
                               Inl e \<Rightarrow> Inl e
                             | Inr scopes' \<Rightarrow>
                                 (case shared_scopes score scopes' of
                                    Inl e \<Rightarrow> Inl e
                                  | Inr shared \<Rightarrow>
                                      (case scope_text v shared of
                                         Inl e \<Rightarrow> Inl e
                                       | Inr scope \<Rightarrow>
                                           Inr (insert_suggestion v insert_at character len scope
                                                  end_token)))))))))"

definition SuggestSyntaxTest_run ::
  "(string \<Rightarrow> string \<Rightarrow> int) \<Rightarrow> view \<Rightarrow> string \<Rightarrow> error + view" where
  "SuggestSyntaxTest_run score v character =
     suggest_after_trigger score (view_replace_sel v character) character"

section \<open>The highlight\<close>

text \<open>
  \<open>on_selection_modified_async\<close> up to the region it hands to the host: \<open>Erase\<close> for
  \<open>erase_regions\<close>, \<open>Add\<close> for \<open>add_regions\<close> with that region.
\<close>

datatype highlight = Erase | Add Region

definition on_selection_modified_async :: "view \<Rightarrow> error + highlight" where
  "on_selection_modified_async v =
     (let sel = sel0 v;
          cursor = (if rempty sel then Region (rbegin sel) (rend sel + 1) else sel);
          highlight_only_cursor =
            (if rempty sel then False else match_only_carets (view_substr v sel))
      in case get_details_of_line_being_tested v of
           Inl e \<Rightarrow> Inl e
         | Inr (None, line) \<Rightarrow> Inr Erase
         | Inr (Some [], line) \<Rightarrow> Inr Erase
         | Inr (Some (d # ds), line) \<Rightarrow>
             (case assertion_colrange d of
                None \<Rightarrow> Inr Erase
              | Some (c0, c1) \<Rightarrow>
                  (let col_start = (if highlight_only_cursor then view_col v (rbegin cursor) else c0);
                       col_end = (if highlight_only_cursor then view_col v (rend cursor)
                                  else if c1 = c0 then c1 + 1 else c1)
                   in case line of
                        None \<Rightarrow> Inl AttributeError
                      | Some lr \<Rightarrow> Inr (Add (Region (rbegin lr + col_start) (rbegin lr + col_end))))))"

section \<open>Example documents\<close>

definition header_line :: string where
  "header_line = ''# SYNTAX TEST '' @ [CHR 0x22] @ ''x'' @ [CHR 0x22]"

text \<open>
  An unsaved buffer: the declaration line, then the code line \<open>foo\<close> with the cursor at
  its end. Every position has the scope \<open>source.x\<close>, and every selector matches.
\<close>

definition code_line_view :: view where
  "code_line_view =
     \<lparr>buffer = header_line @ [NL] @ ''foo'', file_name = None, sel0 = Region 21 21,
      scope_name = (\<lambda>_. ''source.x'')\<rparr>"

definition score_all :: "string \<Rightarrow> string \<Rightarrow> int" where
  "score_all scope selector = 1"

text \<open>
  The code line \<open>abc\<close> at offsets 18 to 20, its newline at 21, and below it a comment
  line with the cursor at its end; the first two columns of the code line have one scope,
  the rest another.
\<close>

definition two_scope_view :: view where
  "two_scope_view =
     \<lparr>buffer = header_line @ [NL] @ ''abc'' @ [NL] @ ''# '', file_name = None,
      sel0 = Region 24 24,
      scope_name = (\<lambda>p. if p < 20 then ''source.x a'' else ''source.x b'')\<rparr>"

text \<open>A host in which no selector matches.\<close>

definition score_none :: "string \<Rightarrow> string \<Rightarrow> int" where
  "score_none scope selector = 0"

text \<open>
  A code line, a finished assertion line below it and a comment line still empty, with the
  cursor at its end.
\<close>

definition run_view :: view where
  "run_view =
     \<lparr>buffer = header_line @ [NL] @ ''abc'' @ [NL] @ ''# ^^ a'' @ [NL] @ ''#'', file_name = None,
      sel0 = Region 30 30,
      scope_name = (\<lambda>p. if p < 20 then ''source.x a'' else ''source.x b'')\<rparr>"

text \<open>A comment line that holds no assertion yet, the cursor at its end.\<close>

definition in_progress_view :: view where
  "in_progress_view =
     \<lparr>buffer = header_line @ [NL] @ ''abc'' @ [NL] @ ''# x'', file_name = None,
      sel0 = Region 25 25,
      scope_name = (\<lambda>p. if p < 20 then ''source.x a'' else ''source.x b'')\<rparr>"

text \<open>
  The code line \<open>ab\<close> and below it an indented comment with \<open><-\<close>, whose token
  starts at column 4, past the end of the code line.
\<close>

definition indented_arrow_view :: view where
  "indented_arrow_view =
     \<lparr>buffer = header_line @ [NL] @ ''ab'' @ [NL] @ ''    # <- '', file_name = None,
      sel0 = Region 30 30, scope_name = (\<lambda>_. ''source.x'')\<rparr>"

text \<open>
  An assertion line \<open># ^^^\<close>; the selection covers the three carets and the newline
  after them.
\<close>

definition caret_selection_view :: view where
  "caret_selection_view =
     \<lparr>buffer = header_line @ [NL] @ ''abcdefgh'' @ [NL] @ ''# ^^^'' @ [NL], file_name = None,
      sel0 = Region 29 33, scope_name = (\<lambda>_. ''source.x'')\<rparr>"

text \<open>A document whose declaration line carries an end token.\<close>

definition end_token_view :: view where
  "end_token_view =
     \<lparr>buffer = ''<!-- SYNTAX TEST '' @ [CHR 0x22] @ ''a b'' @ [CHR 0x22] @ '' -->'' @ [NL] @ ''<p>'',
      file_name = None, sel0 = Region 0 0, scope_name = (\<lambda>_. ''text.html'')\<rparr>"

text \<open>
  A saved file named as a test file whose first line is no declaration; the cursor is on
  its second line.
\<close>

definition named_view :: view where
  "named_view =
     \<lparr>buffer = ''foo'' @ [NL] @ ''# '', file_name = Some ''Packages/X/syntax_test_foo.txt'',
      sel0 = Region 6 6, scope_name = (\<lambda>_. ''text.plain'')\<rparr>"

section \<open>Properties of the walk\<close>

lemma line_begin_le_end: "line_begin s p \<le> line_end s p"
  by (simp add: line_begin_def line_end_def Let_def) 

lemma view_line_ordered: "rbegin (view_line v p) \<le> rend (view_line v p)"
  using line_begin_le_end [of "buffer v" "nat p"] by (simp add: view_line_def)

lemma view_line_nonneg: "0 \<le> rbegin (view_line v p)"
  by (simp add: view_line_def)

lemma walk_loop_top:
  "pos < 0 \<Longrightarrow> walk_loop v pos first_line lines (Some d) = Inr (lines, line_region d)"
  by (simp add: walk_loop.simps)

lemma walk_loop_append:
  assumes "\<not> pos < 0" and "d = get_details_of_test_assertion_line v pos"
    and "line_region d = Some lr"
    and "assertion_colrange d \<noteq> None \<or> (first_line \<and> comment_marker_match d \<noteq> None)"
  shows "walk_loop v pos first_line lines prev
    = walk_loop v (rbegin lr - 1) False (lines @ [d]) (Some d)"
  using assms by (subst walk_loop.simps) (auto simp: Let_def)

lemma walk_loop_stop:
  assumes "\<not> pos < 0" and "d = get_details_of_test_assertion_line v pos"
    and "line_region d = Some lr"
    and "assertion_colrange d = None" and "\<not> first_line \<or> comment_marker_match d = None"
  shows "walk_loop v pos first_line lines prev = Inr (lines, Some lr)"
  using assms by (subst walk_loop.simps) (auto simp: Let_def)

lemma walk_loop_raise:
  assumes "\<not> pos < 0" and "line_region (get_details_of_test_assertion_line v pos) = None"
  shows "walk_loop v pos first_line lines prev = Inl AttributeError"
  using assms by (subst walk_loop.simps) (auto simp: Let_def)

lemma walk_loop_region:
  assumes "walk_loop v pos f ls prev = Inr (lines, Some r)"
    and "\<And>d lr. prev = Some d \<Longrightarrow> line_region d = Some lr \<Longrightarrow> \<exists>p. lr = view_line v p"
  shows "\<exists>p. r = view_line v p"
  using assms
proof (induction v pos f ls prev rule: walk_loop.induct)
  case (1 v pos first_line lines' prev)
  show ?case
  proof (cases "pos < 0")
    case True
    with "1.prems" show ?thesis
      by (auto simp: walk_loop.simps split: option.splits)
  next
    case False
    define d where "d = get_details_of_test_assertion_line v pos"
    show ?thesis
    proof (cases "line_region d")
      case None
      with False "1.prems"(1) show ?thesis by (simp add: walk_loop_raise d_def)
    next
      case (Some lr)
      then have lrv: "lr = view_line v pos" unfolding d_def by (rule line_region_details)
      have inv: "\<And>d' lr'. Some d = Some d' \<Longrightarrow> line_region d' = Some lr'
          \<Longrightarrow> \<exists>p. lr' = view_line v p"
        using Some lrv by auto
      show ?thesis
      proof (cases "assertion_colrange d \<noteq> None")
        case True
        with False Some "1.prems"(1)
        have "walk_loop v (rbegin lr - 1) False (lines' @ [d]) (Some d) = Inr (lines, Some r)"
          by (simp add: walk_loop_append [OF False d_def Some])
        from "1.IH"(1) [OF False d_def Some True this inv] show ?thesis .
      next
        case nocol: False
        show ?thesis
        proof (cases "\<not> first_line \<or> comment_marker_match d = None")
          case True
          from nocol have nc: "assertion_colrange d = None" by blast
          have "walk_loop v pos first_line lines' prev = Inr (lines', Some lr)"
            by (rule walk_loop_stop [OF False d_def Some nc True])
          with "1.prems"(1) lrv show ?thesis by auto
        next
          case cont: False
          then have m: "comment_marker_match d \<noteq> None" by simp
          from cont have "walk_loop v (rbegin lr - 1) False (lines' @ [d]) (Some d)
              = Inr (lines, Some r)"
            using "1.prems"(1) by (simp add: walk_loop_append [OF False d_def Some])
          from "1.IH"(2) [OF False d_def Some nocol cont m this inv] show ?thesis .
        qed
      qed
    qed
  qed
qed

lemma walker_file:
  assumes "get_details_of_line_being_tested v = Inr (Some lines, r)"
  shows "is_syntax_test_file v" and "walk_loop v (rbegin (sel0 v)) True [] None = Inr (lines, r)"
  using assms
  by (auto simp: get_details_of_line_being_tested_def split: if_splits sum.splits)

lemma walker_region:
  assumes "get_details_of_line_being_tested v = Inr (Some lines, Some line)"
  shows "rbegin line \<le> rend line" and "0 \<le> rbegin line"
proof -
  from walker_file(2) [OF assms] have "\<exists>p. line = view_line v p"
    by (rule walk_loop_region) simp
  then show "rbegin line \<le> rend line" and "0 \<le> rbegin line"
    by (auto simp: view_line_ordered view_line_nonneg)
qed

lemma walk_loop_appended:
  assumes "walk_loop v pos f ls prev = Inr (lines, r)"
  shows "\<exists>new. lines = ls @ new
    \<and> list_all (\<lambda>d. assertion_colrange d \<noteq> None) (if f then tl new else new)
    \<and> (new \<noteq> [] \<longrightarrow> assertion_colrange (hd new) \<noteq> None \<or> comment_marker_match (hd new) \<noteq> None)
    \<and> int (length new) \<le> (if pos < 0 then 0 else pos + 1)"
  using assms
proof (induction v pos f ls prev rule: walk_loop.induct)
  case (1 v pos first_line lines' prev)
  show ?case
  proof (cases "pos < 0")
    case True
    with "1.prems" show ?thesis
      by (auto simp: walk_loop.simps split: option.splits)
  next
    case False
    define d where "d = get_details_of_test_assertion_line v pos"
    show ?thesis
    proof (cases "line_region d")
      case None
      with False "1.prems"(1) show ?thesis by (simp add: walk_loop_raise d_def)
    next
      case (Some lr)
      then have "lr = view_line v pos" unfolding d_def by (rule line_region_details)
      with False have dec: "rbegin lr - 1 < pos" and nn: "0 \<le> rbegin lr"
        using rbegin_view_line_le [of pos v] by (simp_all add: view_line_nonneg)
      have step: "\<exists>new. lines = lines' @ new
          \<and> list_all (\<lambda>d. assertion_colrange d \<noteq> None) (if first_line then tl new else new)
          \<and> (new \<noteq> [] \<longrightarrow> assertion_colrange (hd new) \<noteq> None \<or> comment_marker_match (hd new) \<noteq> None)
          \<and> int (length new) \<le> (if pos < 0 then 0 else pos + 1)"
        if app: "assertion_colrange d \<noteq> None \<or> (first_line \<and> comment_marker_match d \<noteq> None)"
          and ih: "\<exists>new. lines = (lines' @ [d]) @ new
          \<and> list_all (\<lambda>d. assertion_colrange d \<noteq> None) (if False then tl new else new)
          \<and> (new \<noteq> [] \<longrightarrow> assertion_colrange (hd new) \<noteq> None \<or> comment_marker_match (hd new) \<noteq> None)
          \<and> int (length new) \<le> (if rbegin lr - 1 < 0 then 0 else rbegin lr - 1 + 1)"
      proof -
        from ih obtain new where new: "lines = (lines' @ [d]) @ new"
          "list_all (\<lambda>d. assertion_colrange d \<noteq> None) new"
          "int (length new) \<le> (if rbegin lr - 1 < 0 then 0 else rbegin lr - 1 + 1)"
          by auto
        from new(3) dec nn False have "int (length (d # new)) \<le> (if pos < 0 then 0 else pos + 1)"
          by (auto split: if_splits)
        moreover from app new(2)
        have "list_all (\<lambda>d. assertion_colrange d \<noteq> None) (if first_line then tl (d # new) else d # new)"
          by auto
        moreover from app have "assertion_colrange (hd (d # new)) \<noteq> None
            \<or> comment_marker_match (hd (d # new)) \<noteq> None"
          by auto
        moreover from new(1) have "lines = lines' @ (d # new)" by simp
        ultimately show ?thesis by blast
      qed
      show ?thesis
      proof (cases "assertion_colrange d \<noteq> None")
        case True
        with False Some "1.prems"(1)
        have "walk_loop v (rbegin lr - 1) False (lines' @ [d]) (Some d) = Inr (lines, r)"
          by (simp add: walk_loop_append [OF False d_def Some])
        from "1.IH"(1) [OF False d_def Some True this] True show ?thesis
          by (intro step) auto
      next
        case nocol: False
        then have nc: "assertion_colrange d = None" by blast
        show ?thesis
        proof (cases "\<not> first_line \<or> comment_marker_match d = None")
          case True
          have "walk_loop v pos first_line lines' prev = Inr (lines', Some lr)"
            by (rule walk_loop_stop [OF False d_def Some nc True])
          with "1.prems"(1) False show ?thesis by auto
        next
          case cont: False
          then have m: "comment_marker_match d \<noteq> None" by simp
          from cont have "walk_loop v (rbegin lr - 1) False (lines' @ [d]) (Some d)
              = Inr (lines, r)"
            using "1.prems"(1) by (simp add: walk_loop_append [OF False d_def Some])
          from "1.IH"(2) [OF False d_def Some nocol cont m this] cont show ?thesis
            by (intro step) auto
        qed
      qed
    qed
  qed
qed

lemma details_region_valid:
  assumes "is_syntax_test_file v" and "fst (get_syntax_test_tokens v) = Some tok"
  shows "line_region (get_details_of_test_assertion_line v pos) = Some (view_line v pos)"
  using assms
  by (simp add: get_details_of_test_assertion_line_def Let_def split: prod.splits)

lemma walk_loop_returns:
  assumes "is_syntax_test_file v" and "fst (get_syntax_test_tokens v) = Some tok"
    and "0 \<le> pos \<or> (\<exists>d lr. prev = Some d \<and> line_region d = Some lr)"
  shows "\<exists>lines r. walk_loop v pos f ls prev = Inr (lines, Some r)"
  using assms
proof (induction v pos f ls prev rule: walk_loop.induct)
  case (1 v pos first_line lines' prev)
  show ?case
  proof (cases "pos < 0")
    case True
    with "1.prems" show ?thesis by (auto simp: walk_loop.simps)
  next
    case False
    define d where "d = get_details_of_test_assertion_line v pos"
    have lr: "line_region d = Some (view_line v pos)"
      unfolding d_def using "1.prems"(1,2) by (rule details_region_valid)
    have inv: "0 \<le> rbegin (view_line v pos) - 1 \<or> (\<exists>d' lr. Some d = Some d' \<and> line_region d' = Some lr)"
      using lr by simp
    show ?thesis
    proof (cases "assertion_colrange d \<noteq> None")
      case True
      from "1.IH"(1) [OF False d_def lr True "1.prems"(1,2) inv] True show ?thesis
        by (simp add: walk_loop_append [OF False d_def lr])
    next
      case nocol: False
      then have nc: "assertion_colrange d = None" by blast
      show ?thesis
      proof (cases "\<not> first_line \<or> comment_marker_match d = None")
        case True
        show ?thesis
          by (simp add: walk_loop_stop [OF False d_def lr nc True])
      next
        case cont: False
        then have m: "comment_marker_match d \<noteq> None" by simp
        from "1.IH"(2) [OF False d_def lr nocol cont m "1.prems"(1,2) inv] cont show ?thesis
          by (simp add: walk_loop_append [OF False d_def lr])
      qed
    qed
  qed
qed

section \<open>Assertion lines\<close>

lemma takeWhile_stop:
  assumes "list_all P xs" and "ys = [] \<or> \<not> P (hd ys)"
  shows "takeWhile P (xs @ ys) = xs" and "dropWhile P (xs @ ys) = ys"
  using assms by (induction xs) (auto simp: takeWhile_eq_Nil_iff dropWhile_eq_self_iff)

lemma match_comment_token_ws:
  assumes "list_all is_space ws" and "tok \<noteq> []" and "\<not> is_space (hd tok)"
  shows "match_comment_token tok (ws @ tok @ rest) = Some (length ws)"
  using assms
proof (induction ws)
  case Nil
  then obtain t ts where "tok = t # ts" by (cases tok) auto
  with Nil show ?case by simp
next
  case (Cons c ws)
  then show ?case by simp
qed

lemma match_assertion_arrow:
  assumes "list_all is_space ws2"
  shows "match_assertion (ws2 @ ''<-'' @ tail) = Some Arrow"
proof -
  have "\<not> is_space (hd (''<-'' @ tail))" by (simp add: is_space_def)
  then have "dropWhile is_space (ws2 @ ''<-'' @ tail) = ''<-'' @ tail"
    using assms by (intro takeWhile_stop(2)) auto
  then show ?thesis by (simp add: match_assertion_def Let_def)
qed

lemma match_assertion_carets:
  assumes "list_all is_space ws2" and "0 < n" and "tail = [] \<or> hd tail \<noteq> CHR ''^''"
  shows "match_assertion (ws2 @ replicate n CHR ''^'' @ tail)
    = Some (Carets (length ws2) (length ws2 + n))"
proof -
  from assms(2) obtain m where n: "n = Suc m" by (cases n) auto
  have hd: "\<not> is_space (hd (replicate n CHR ''^'' @ tail))"
    by (simp add: n is_space_def)
  have tw: "takeWhile is_space (ws2 @ replicate n CHR ''^'' @ tail) = ws2"
    and dw: "dropWhile is_space (ws2 @ replicate n CHR ''^'' @ tail) = replicate n CHR ''^'' @ tail"
    using assms(1) hd by (auto intro!: takeWhile_stop)
  have "list_all is_caret (replicate n CHR ''^'')"
    by (simp add: list_all_iff is_caret_def)
  moreover have "tail = [] \<or> \<not> is_caret (hd tail)" using assms(3) by (simp add: is_caret_def)
  ultimately have car: "takeWhile is_caret (replicate n CHR ''^'' @ tail) = replicate n CHR ''^''"
    by (rule takeWhile_stop(1))
  have np: "\<not> prefix ''<-'' (replicate n CHR ''^'' @ tail)" by (simp add: n)
  show ?thesis
    using assms(2) by (simp add: match_assertion_def Let_def tw dw car np)
qed

lemma match_assertion_none:
  assumes "\<not> prefix ''<-'' (dropWhile is_space rest)"
    and "dropWhile is_space rest = [] \<or> hd (dropWhile is_space rest) \<noteq> CHR ''^''"
  shows "match_assertion rest = None"
proof -
  have "takeWhile is_caret (dropWhile is_space rest) = []"
    using assms(2) by (auto simp: takeWhile_eq_Nil_iff is_caret_def)
  with assms(1) show ?thesis by (simp add: match_assertion_def Let_def)
qed

lemma match_declaration_token:
  assumes "match_declaration s = Some (g1, g2)"
  shows "g1 \<noteq> []" and "\<not> is_space (hd g1)"
proof -
  have ne: "takeWhile non_space s \<noteq> []"
    using assms by (auto simp: match_declaration_def Let_def)
  with assms have g: "g1 = takeWhile non_space s"
    by (auto simp: match_declaration_def Let_def split: option.splits)
  from ne g show "g1 \<noteq> []" by simp
  from ne have "hd (takeWhile non_space s) \<in> set (takeWhile non_space s)" by simp
  then have "non_space (hd (takeWhile non_space s))" by (rule set_takeWhileD [THEN conjunct2])
  with g show "\<not> is_space (hd g1)" by (simp add: non_space_def)
qed

lemma tokens_token:
  assumes "get_syntax_test_tokens v = (Some tok, e)"
  shows "tok \<noteq> []" and "\<not> is_space (hd tok)"
proof -
  from assms obtain s where "match_declaration s = Some (tok, e)"
    by (auto simp: get_syntax_test_tokens_def Let_def split: if_splits option.splits)
  then show "tok \<noteq> []" and "\<not> is_space (hd tok)"
    by (auto dest: match_declaration_token)
qed

lemma details_parse:
  assumes "is_syntax_test_file v" and "get_syntax_test_tokens v = (Some tok, e)"
  shows "comment_marker_match (get_details_of_test_assertion_line v pos)
      = fst (parse_assertion_line tok (view_substr v (view_line v pos)))"
    and "assertion_colrange (get_details_of_test_assertion_line v pos)
      = snd (parse_assertion_line tok (view_substr v (view_line v pos)))"
  using assms
  by (simp_all add: get_details_of_test_assertion_line_def Let_def split: prod.splits)

lemma parse_assertion_line_marker:
  assumes "list_all is_space ws" and "tok \<noteq> []" and "\<not> is_space (hd tok)"
  shows "parse_assertion_line tok (ws @ tok @ rest) =
    (Some (int (length ws), int (length ws) + int (length tok)),
     (case match_assertion rest of
        None \<Rightarrow> None
      | Some Arrow \<Rightarrow> Some (int (length ws), int (length ws))
      | Some (Carets s e) \<Rightarrow>
          Some (int (length ws) + int (length tok) + int s,
                int (length ws) + int (length tok) + int e)))"
proof -
  have "nat (int (length ws) + int (length tok)) = length ws + length tok" by simp
  then have "drop (nat (int (length ws) + int (length tok))) (ws @ tok @ rest) = rest" by simp
  then show ?thesis
    using match_comment_token_ws [OF assms]
    by (simp add: parse_assertion_line_def Let_def)
qed

text \<open>
  C7. On a line of a test file whose text is whitespace, the document's start token and a
  rest: the comment marker match starts after the whitespace and ends after the token;
  when the rest is optional whitespace and then \<open><-\<close>, the colrange is the zero-width
  pair at the token's start column; when the rest is optional whitespace and then a
  maximal run of \<open>n > 0\<close> carets, the colrange covers the columns of that run, counted
  from the token's end column; when the rest, after its whitespace, starts with neither,
  the colrange is \<open>None\<close>.
\<close>

theorem C7_assertion_colrange:
  assumes "is_syntax_test_file v" and "get_syntax_test_tokens v = (Some tok, e)"
    and "view_substr v (view_line v pos) = ws @ tok @ rest" and "list_all is_space ws"
  shows "comment_marker_match (get_details_of_test_assertion_line v pos)
      = Some (int (length ws), int (length ws) + int (length tok))
    \<and> (\<forall>ws2 tail. list_all is_space ws2 \<and> rest = ws2 @ ''<-'' @ tail \<longrightarrow>
          assertion_colrange (get_details_of_test_assertion_line v pos)
            = Some (int (length ws), int (length ws)))
    \<and> (\<forall>ws2 n tail. list_all is_space ws2 \<and> 0 < n \<and> rest = ws2 @ replicate n CHR ''^'' @ tail
            \<and> (tail = [] \<or> hd tail \<noteq> CHR ''^'') \<longrightarrow>
          assertion_colrange (get_details_of_test_assertion_line v pos)
            = Some (int (length ws) + int (length tok) + int (length ws2),
                    int (length ws) + int (length tok) + int (length ws2) + int n))
    \<and> (\<not> prefix ''<-'' (dropWhile is_space rest)
          \<and> (dropWhile is_space rest = [] \<or> hd (dropWhile is_space rest) \<noteq> CHR ''^'') \<longrightarrow>
          assertion_colrange (get_details_of_test_assertion_line v pos) = None)"
proof -
  note tk = tokens_token [OF assms(2)]
  note parse = parse_assertion_line_marker [OF assms(4) tk, of rest]
  have m: "comment_marker_match (get_details_of_test_assertion_line v pos)
      = Some (int (length ws), int (length ws) + int (length tok))"
    by (simp add: details_parse(1) [OF assms(1,2)] assms(3) parse)
  have c: "assertion_colrange (get_details_of_test_assertion_line v pos) =
     (case match_assertion rest of
        None \<Rightarrow> None
      | Some Arrow \<Rightarrow> Some (int (length ws), int (length ws))
      | Some (Carets s e) \<Rightarrow>
          Some (int (length ws) + int (length tok) + int s,
                int (length ws) + int (length tok) + int e))"
    by (simp add: details_parse(2) [OF assms(1,2)] assms(3) parse)
  have a: "\<forall>ws2 tail. list_all is_space ws2 \<and> rest = ws2 @ ''<-'' @ tail \<longrightarrow>
          assertion_colrange (get_details_of_test_assertion_line v pos)
            = Some (int (length ws), int (length ws))"
    by (auto simp: c match_assertion_arrow simp del: append.simps)
  have b: "\<forall>ws2 n tail. list_all is_space ws2 \<and> 0 < n \<and> rest = ws2 @ replicate n CHR ''^'' @ tail
            \<and> (tail = [] \<or> hd tail \<noteq> CHR ''^'') \<longrightarrow>
          assertion_colrange (get_details_of_test_assertion_line v pos)
            = Some (int (length ws) + int (length tok) + int (length ws2),
                    int (length ws) + int (length tok) + int (length ws2) + int n)"
    by (auto simp: c match_assertion_carets)
  have n: "\<not> prefix ''<-'' (dropWhile is_space rest)
          \<and> (dropWhile is_space rest = [] \<or> hd (dropWhile is_space rest) \<noteq> CHR ''^'') \<longrightarrow>
          assertion_colrange (get_details_of_test_assertion_line v pos) = None"
    by (auto simp: c match_assertion_none)
  from m a b n show ?thesis by blast
qed

theorem C7_assertion_colrange_witness:
  "is_syntax_test_file run_view
   \<and> get_syntax_test_tokens run_view = (Some ''#'', None)
   \<and> view_substr run_view (view_line run_view 22) = [] @ ''#'' @ '' ^^ a''
   \<and> assertion_colrange (get_details_of_test_assertion_line run_view 22) = Some (2, 4)"
proof -
  have h1: "is_syntax_test_file run_view" by code_simp
  have h2: "get_syntax_test_tokens run_view = (Some ''#'', None)" by code_simp
  have h3: "view_substr run_view (view_line run_view 22) = [] @ ''#'' @ '' ^^ a''"
    by code_simp
  have h4: "list_all is_space []" by simp
  have sp: "list_all is_space '' ''" by (simp add: is_space_def)
  have rest: "'' ^^ a'' = '' '' @ replicate 2 CHR ''^'' @ '' a''"
    by (simp add: numeral_2_eq_2)
  from C7_assertion_colrange [OF h1 h2 h3 h4]
  have "\<forall>ws2 n tail. list_all is_space ws2 \<and> 0 < n \<and> '' ^^ a'' = ws2 @ replicate n CHR ''^'' @ tail
            \<and> (tail = [] \<or> hd tail \<noteq> CHR ''^'') \<longrightarrow>
          assertion_colrange (get_details_of_test_assertion_line run_view 22)
            = Some (int (length ([] :: string)) + int (length ''#'') + int (length ws2),
                    int (length ([] :: string)) + int (length ''#'') + int (length ws2) + int n)"
    by blast
  then have "list_all is_space '' '' \<and> 0 < (2::nat)
        \<and> '' ^^ a'' = '' '' @ replicate 2 CHR ''^'' @ '' a''
        \<and> ('' a'' = [] \<or> hd '' a'' \<noteq> CHR ''^'') \<longrightarrow>
      assertion_colrange (get_details_of_test_assertion_line run_view 22)
        = Some (int (length ([] :: string)) + int (length ''#'') + int (length '' ''),
                int (length ([] :: string)) + int (length ''#'') + int (length '' '') + int 2)"
    by blast
  with sp rest
  have "assertion_colrange (get_details_of_test_assertion_line run_view 22) = Some (2, 4)"
    by simp
  with h1 h2 h3 show ?thesis by blast
qed

section \<open>The declaration line\<close>

lemma takeWhile_all: "list_all P xs \<Longrightarrow> takeWhile P xs = xs"
  by (simp add: list_all_iff)

lemma dropWhile_all: "list_all P xs \<Longrightarrow> dropWhile P xs = []"
  by (simp add: list_all_iff)

lemma list_all_takeWhile: "list_all P (takeWhile P xs)"
  by (auto simp: list_all_iff dest: set_takeWhileD)

lemma dropWhile_head: "dropWhile P xs = [] \<or> \<not> P (hd (dropWhile P xs))"
  using hd_dropWhile [of P xs] by blast

lemma non_space_head: "list_all non_space e \<Longrightarrow> e = [] \<or> \<not> is_space (hd e)"
  by (cases e) (auto simp: non_space_def)

lemma match_end_token_shape:
  assumes "list_all is_space ws3" and "list_all non_space e"
  shows "match_end_token (ws3 @ e) = Some (if e = [] then None else Some e)"
proof -
  have a: "dropWhile is_space (ws3 @ e) = e"
    using assms(1) non_space_head [OF assms(2)] by (rule takeWhile_stop(2))
  have b: "takeWhile non_space e = e" using assms(2) by (rule takeWhile_all)
  have c: "dropWhile non_space e = []" using assms(2) by (rule dropWhile_all)
  show ?thesis
    unfolding match_end_token_def Let_def a b c by simp
qed

lemma match_end_token_SomeD:
  assumes "match_end_token r = Some g2" and "NL \<notin> set r"
  shows "\<exists>ws3 e. r = ws3 @ e \<and> list_all is_space ws3 \<and> list_all non_space e
    \<and> g2 = (if e = [] then None else Some e)"
proof -
  define ws3 where "ws3 = takeWhile is_space r"
  define e where "e = dropWhile is_space r"
  have r: "r = ws3 @ e" by (simp add: ws3_def e_def)
  have "set (dropWhile non_space e) \<subseteq> set r"
    using set_dropWhileD [of _ non_space e] set_dropWhileD [of _ is_space r]
    by (auto simp: e_def)
  with assms(2) have "dropWhile non_space e \<noteq> [NL]" by auto
  with assms(1) have d: "dropWhile non_space e = []"
    and g: "g2 = (if takeWhile non_space e = [] then None else Some (takeWhile non_space e))"
    by (auto simp: match_end_token_def Let_def e_def split: if_splits)
  from d have all: "list_all non_space e" by (simp add: list_all_iff dropWhile_eq_Nil_conv)
  then have "takeWhile non_space e = e" by (rule takeWhile_all)
  with g have "g2 = (if e = [] then None else Some e)" by simp
  moreover have "list_all is_space ws3" unfolding ws3_def by (rule list_all_takeWhile)
  ultimately show ?thesis using r all by blast
qed

lemma match_description_shape:
  assumes "desc \<noteq> []" and "list_all non_quote desc"
  shows "match_description ([CHR 0x22] @ desc @ [CHR 0x22] @ r7) = match_end_token r7"
proof -
  have q: "CHR 0x22 # r7 = [] \<or> \<not> non_quote (hd (CHR 0x22 # r7))"
    by (simp add: non_quote_def)
  have tw: "takeWhile non_quote (desc @ CHR 0x22 # r7) = desc"
    and dw: "dropWhile non_quote (desc @ CHR 0x22 # r7) = CHR 0x22 # r7"
    using assms(2) q by (rule takeWhile_stop)+
  have "match_description (CHR 0x22 # (desc @ CHR 0x22 # r7)) = match_end_token r7"
    unfolding match_description_def list.case Let_def tw dw using assms(1) by simp
  then show ?thesis by simp
qed

lemma match_description_SomeD:
  assumes "match_description r = Some g2"
  shows "\<exists>desc r7. r = [CHR 0x22] @ desc @ [CHR 0x22] @ r7 \<and> desc \<noteq> []
    \<and> list_all non_quote desc \<and> match_end_token r7 = Some g2"
proof -
  from assms obtain r5 where r: "r = CHR 0x22 # r5"
    by (cases r) (auto simp: match_description_def split: if_splits)
  define desc where "desc = takeWhile non_quote r5"
  define r6 where "r6 = dropWhile non_quote r5"
  from assms r have ne: "desc \<noteq> []" and r6: "r6 \<noteq> []" and m: "match_end_token (tl r6) = Some g2"
    by (auto simp: match_description_def Let_def desc_def r6_def split: if_splits)
  have "\<not> non_quote (hd r6)" using r6 hd_dropWhile [of non_quote r5] unfolding r6_def by blast
  then have "hd r6 = CHR 0x22" by (simp add: non_quote_def)
  with r6 have "r6 = [CHR 0x22] @ tl r6" by (cases r6) auto
  moreover have "r5 = desc @ r6" by (simp add: desc_def r6_def)
  ultimately have "r = [CHR 0x22] @ desc @ [CHR 0x22] @ tl r6" using r by simp
  moreover have "list_all non_quote desc" unfolding desc_def by (rule list_all_takeWhile)
  ultimately show ?thesis using ne m by blast
qed

lemma match_keyword_shape:
  assumes "ws1 \<noteq> []" and "list_all is_space ws1" and "ws2 \<noteq> []" and "list_all is_space ws2"
    and "r4 = [] \<or> \<not> is_space (hd r4)"
  shows "match_keyword (ws1 @ ''SYNTAX TEST'' @ ws2 @ r4) = match_description r4"
proof -
  have k: "''SYNTAX TEST'' @ ws2 @ r4 = [] \<or> \<not> is_space (hd (''SYNTAX TEST'' @ ws2 @ r4))"
    by (simp add: is_space_def)
  have t1: "takeWhile is_space (ws1 @ ''SYNTAX TEST'' @ ws2 @ r4) = ws1"
    and d1: "dropWhile is_space (ws1 @ ''SYNTAX TEST'' @ ws2 @ r4) = ''SYNTAX TEST'' @ ws2 @ r4"
    using assms(2) k by (rule takeWhile_stop)+
  have p: "prefix ''SYNTAX TEST'' (''SYNTAX TEST'' @ ws2 @ r4)" by (rule prefixI) simp
  have d11: "drop 11 (''SYNTAX TEST'' @ ws2 @ r4) = ws2 @ r4" by simp
  have t2: "takeWhile is_space (ws2 @ r4) = ws2" and d2: "dropWhile is_space (ws2 @ r4) = r4"
    using assms(4,5) by (rule takeWhile_stop)+
  show ?thesis
    unfolding match_keyword_def Let_def t1 d1 d11 t2 d2 using assms(1,3) p by simp
qed

lemma match_keyword_SomeD:
  assumes "match_keyword r1 = Some g2"
  shows "\<exists>ws1 ws2 r4. r1 = ws1 @ ''SYNTAX TEST'' @ ws2 @ r4 \<and> ws1 \<noteq> [] \<and> list_all is_space ws1
    \<and> ws2 \<noteq> [] \<and> list_all is_space ws2 \<and> match_description r4 = Some g2"
proof -
  define ws1 where "ws1 = takeWhile is_space r1"
  define r2 where "r2 = dropWhile is_space r1"
  define r3 where "r3 = drop 11 r2"
  define ws2 where "ws2 = takeWhile is_space r3"
  define r4 where "r4 = dropWhile is_space r3"
  have un: "match_keyword r1 =
      (if ws1 = [] \<or> \<not> prefix ''SYNTAX TEST'' r2 then None
       else if ws2 = [] then None else match_description r4)"
    by (simp add: match_keyword_def Let_def ws1_def r2_def r3_def ws2_def r4_def)
  from assms have w1: "ws1 \<noteq> []" and p: "prefix ''SYNTAX TEST'' r2" and w2: "ws2 \<noteq> []"
    and m: "match_description r4 = Some g2"
    unfolding un by (auto split: if_splits)
  from p obtain zs where zs: "r2 = ''SYNTAX TEST'' @ zs" by (auto elim: prefixE)
  then have "r3 = zs" by (simp add: r3_def)
  moreover have "r3 = ws2 @ r4" by (simp add: ws2_def r4_def)
  moreover have "r1 = ws1 @ r2" by (simp add: ws1_def r2_def)
  ultimately have "r1 = ws1 @ ''SYNTAX TEST'' @ ws2 @ r4" using zs by simp
  moreover have "list_all is_space ws1" unfolding ws1_def by (rule list_all_takeWhile)
  moreover have "list_all is_space ws2" unfolding ws2_def by (rule list_all_takeWhile)
  ultimately show ?thesis using w1 w2 m by blast
qed

lemma match_declaration_shape:
  assumes "tok \<noteq> []" and "list_all non_space tok" and "r1 = [] \<or> is_space (hd r1)"
  shows "match_declaration (tok @ r1)
    = (case match_keyword r1 of None \<Rightarrow> None | Some g2 \<Rightarrow> Some (tok, g2))"
proof -
  have "r1 = [] \<or> \<not> non_space (hd r1)" using assms(3) by (simp add: non_space_def)
  with assms(2) have "takeWhile non_space (tok @ r1) = tok" and "dropWhile non_space (tok @ r1) = r1"
    by (rule takeWhile_stop)+
  with assms(1) show ?thesis by (simp add: match_declaration_def Let_def)
qed

lemma match_declaration_SomeD:
  assumes "match_declaration s = Some (g1, g2)"
  shows "\<exists>r1. s = g1 @ r1 \<and> g1 \<noteq> [] \<and> list_all non_space g1 \<and> match_keyword r1 = Some g2"
proof -
  have ne: "takeWhile non_space s \<noteq> []"
    using assms by (auto simp: match_declaration_def Let_def)
  with assms have g: "g1 = takeWhile non_space s"
    and m: "match_keyword (dropWhile non_space s) = Some g2"
    by (auto simp: match_declaration_def Let_def split: option.splits)
  have "s = g1 @ dropWhile non_space s" by (simp add: g)
  moreover have "list_all non_space g1" unfolding g by (rule list_all_takeWhile)
  ultimately show ?thesis using ne g m by blast
qed

lemma declaration_shape_match:
  assumes "declaration_shape s tok etok"
  shows "match_declaration s = Some (tok, etok)"
proof -
  from assms obtain ws1 ws2 desc ws3 e where
    s: "s = tok @ ws1 @ ''SYNTAX TEST'' @ ws2 @ [CHR 0x22] @ desc @ [CHR 0x22] @ ws3 @ e"
    and tok: "tok \<noteq> []" "list_all non_space tok"
    and ws1: "ws1 \<noteq> []" "list_all is_space ws1"
    and ws2: "ws2 \<noteq> []" "list_all is_space ws2"
    and desc: "desc \<noteq> []" "list_all non_quote desc"
    and ws3: "list_all is_space ws3" and e: "list_all non_space e"
    and etok: "etok = (if e = [] then None else Some e)"
    unfolding declaration_shape_def by blast
  have h1: "ws1 @ ''SYNTAX TEST'' @ ws2 @ [CHR 0x22] @ desc @ [CHR 0x22] @ ws3 @ e = []
      \<or> is_space (hd (ws1 @ ''SYNTAX TEST'' @ ws2 @ [CHR 0x22] @ desc @ [CHR 0x22] @ ws3 @ e))"
    using ws1 by (cases ws1) auto
  have h2: "[CHR 0x22] @ desc @ [CHR 0x22] @ ws3 @ e = []
      \<or> \<not> is_space (hd ([CHR 0x22] @ desc @ [CHR 0x22] @ ws3 @ e))"
    by (simp add: is_space_def)
  have "match_declaration s =
      (case match_keyword (ws1 @ ''SYNTAX TEST'' @ ws2 @ [CHR 0x22] @ desc @ [CHR 0x22] @ ws3 @ e)
       of None \<Rightarrow> None | Some g2 \<Rightarrow> Some (tok, g2))"
    unfolding s using tok h1 by (rule match_declaration_shape)
  also have "match_keyword (ws1 @ ''SYNTAX TEST'' @ ws2 @ [CHR 0x22] @ desc @ [CHR 0x22] @ ws3 @ e)
      = match_description ([CHR 0x22] @ desc @ [CHR 0x22] @ ws3 @ e)"
    using ws1 ws2 h2 by (rule match_keyword_shape)
  also have "match_description ([CHR 0x22] @ desc @ [CHR 0x22] @ ws3 @ e) = match_end_token (ws3 @ e)"
    using desc by (rule match_description_shape)
  also have "match_end_token (ws3 @ e) = Some (if e = [] then None else Some e)"
    using ws3 e by (rule match_end_token_shape)
  finally show ?thesis by (simp add: etok)
qed

lemma match_declaration_shape_of:
  assumes "match_declaration s = Some (tok, etok)" and "NL \<notin> set s"
  shows "declaration_shape s tok etok"
proof -
  from match_declaration_SomeD [OF assms(1)] obtain r1 where
    s: "s = tok @ r1" and tok: "tok \<noteq> []" "list_all non_space tok"
    and k: "match_keyword r1 = Some etok" by blast
  from match_keyword_SomeD [OF k] obtain ws1 ws2 r4 where
    r1: "r1 = ws1 @ ''SYNTAX TEST'' @ ws2 @ r4" and ws1: "ws1 \<noteq> []" "list_all is_space ws1"
    and ws2: "ws2 \<noteq> []" "list_all is_space ws2" and d: "match_description r4 = Some etok"
    by blast
  from match_description_SomeD [OF d] obtain desc r7 where
    r4: "r4 = [CHR 0x22] @ desc @ [CHR 0x22] @ r7" and desc: "desc \<noteq> []" "list_all non_quote desc"
    and e: "match_end_token r7 = Some etok" by blast
  have "NL \<notin> set r7" using assms(2) by (simp add: s r1 r4)
  from match_end_token_SomeD [OF e this] obtain ws3 e where
    r7: "r7 = ws3 @ e" and ws3: "list_all is_space ws3" and ee: "list_all non_space e"
    and etok: "etok = (if e = [] then None else Some e)" by blast
  have "s = tok @ ws1 @ ''SYNTAX TEST'' @ ws2 @ [CHR 0x22] @ desc @ [CHR 0x22] @ ws3 @ e"
    by (simp add: s r1 r4 r7)
  with tok ws1 ws2 desc ws3 ee etok show ?thesis
    unfolding declaration_shape_def by blast
qed

lemma first_line_text:
  "view_substr v (view_line v 0) = takeWhile (\<lambda>c. c \<noteq> NL) (buffer v)"
  "rsize (view_line v 0) = int (length (takeWhile (\<lambda>c. c \<noteq> NL) (buffer v)))"
proof -
  have vl: "view_line v 0 = Region 0 (int (length (takeWhile (\<lambda>c. c \<noteq> NL) (buffer v))))"
    by (simp add: view_line_def line_begin_def line_end_def)
  show "view_substr v (view_line v 0) = takeWhile (\<lambda>c. c \<noteq> NL) (buffer v)"
    unfolding vl by (simp add: view_substr_def takeWhile_eq_take [symmetric])
  show "rsize (view_line v 0) = int (length (takeWhile (\<lambda>c. c \<noteq> NL) (buffer v)))"
    unfolding vl by simp
qed

text \<open>
  C8. With \<open>fl\<close> the first line of the buffer: when \<open>fl\<close> is shorter than 1000
  characters and has the declaration shape with token \<open>tok\<close> and end token \<open>etok\<close>
  (\<open>None\<close> when absent), the tokens returned are \<open>(Some tok, etok)\<close>; when \<open>fl\<close> has
  1000 characters or more, or has the declaration shape for no token, they are
  \<open>(None, None)\<close>.
\<close>

theorem C8_declaration_tokens:
  assumes "fl = takeWhile (\<lambda>c. c \<noteq> NL) (buffer v)"
  shows "(length fl < 1000 \<and> declaration_shape fl tok etok \<longrightarrow>
            get_syntax_test_tokens v = (Some tok, etok))
    \<and> (1000 \<le> length fl \<or> (\<forall>tok etok. \<not> declaration_shape fl tok etok) \<longrightarrow>
            get_syntax_test_tokens v = (None, None))"
proof -
  have nl: "NL \<notin> set fl" unfolding assms by (auto dest: set_takeWhileD)
  have un: "get_syntax_test_tokens v =
      (case (if length fl < 1000 then match_declaration fl else None) of
         None \<Rightarrow> (None, None) | Some (g1, g2) \<Rightarrow> (Some g1, g2))"
    by (simp add: get_syntax_test_tokens_def Let_def first_line_text assms)
  have a: "length fl < 1000 \<and> declaration_shape fl tok etok \<longrightarrow>
            get_syntax_test_tokens v = (Some tok, etok)"
    by (auto simp: un dest: declaration_shape_match)
  have b: "1000 \<le> length fl \<or> (\<forall>tok etok. \<not> declaration_shape fl tok etok) \<longrightarrow>
            get_syntax_test_tokens v = (None, None)"
  proof
    assume h: "1000 \<le> length fl \<or> (\<forall>tok etok. \<not> declaration_shape fl tok etok)"
    show "get_syntax_test_tokens v = (None, None)"
    proof (cases "length fl < 1000")
      case False
      then show ?thesis by (simp add: un)
    next
      case True
      with h have no: "\<forall>tok etok. \<not> declaration_shape fl tok etok" by simp
      have "match_declaration fl = None"
      proof (cases "match_declaration fl")
        case None
        then show ?thesis .
      next
        case (Some p)
        then obtain g1 g2 where "match_declaration fl = Some (g1, g2)" by (cases p) auto
        from match_declaration_shape_of [OF this nl] no show ?thesis by blast
      qed
      with True show ?thesis by (simp add: un)
    qed
  qed
  from a b show ?thesis by blast
qed

theorem C8_declaration_tokens_witness:
  "takeWhile (\<lambda>c. c \<noteq> NL) (buffer end_token_view)
     = ''<!--'' @ '' '' @ ''SYNTAX TEST'' @ '' '' @ [CHR 0x22] @ ''a b'' @ [CHR 0x22] @ '' '' @ ''-->''
   \<and> declaration_shape (takeWhile (\<lambda>c. c \<noteq> NL) (buffer end_token_view)) ''<!--'' (Some ''-->'')
   \<and> get_syntax_test_tokens end_token_view = (Some ''<!--'', Some ''-->'')"
proof -
  have fl: "takeWhile (\<lambda>c. c \<noteq> NL) (buffer end_token_view)
     = ''<!--'' @ '' '' @ ''SYNTAX TEST'' @ '' '' @ [CHR 0x22] @ ''a b'' @ [CHR 0x22] @ '' '' @ ''-->''"
    by (simp add: end_token_view_def)
  have len: "length (takeWhile (\<lambda>c. c \<noteq> NL) (buffer end_token_view)) < 1000"
    unfolding fl by simp
  have sh: "declaration_shape (takeWhile (\<lambda>c. c \<noteq> NL) (buffer end_token_view)) ''<!--''
      (Some ''-->'')"
    unfolding fl declaration_shape_def
    apply (rule exI [of _ "'' ''"])
    apply (rule exI [of _ "'' ''"])
    apply (rule exI [of _ "''a b''"])
    apply (rule exI [of _ "'' ''"])
    apply (rule exI [of _ "''-->''"])
    apply (simp add: is_space_def non_space_def non_quote_def)
    done
  from C8_declaration_tokens [OF refl, of end_token_view "''<!--''" "Some ''-->''"] len sh
  have "get_syntax_test_tokens end_token_view = (Some ''<!--'', Some ''-->'')"
    by blast
  with fl sh show ?thesis by blast
qed

section \<open>The suggestion command: the scan\<close>

lemma scan_loop_ref:
  "scan_loop sn False ps [r] len = ([r], len + length (takeWhile (\<lambda>p. sn p = r) ps))"
  by (induction ps arbitrary: len) (auto simp: Let_def)

lemma scan_loop_forced: "scan_loop sn True (p # ps) [] 0 = ([sn p], 1)"
  by (simp add: Let_def)

lemma scan_run_takeWhile:
  assumes "rbegin line + col \<le> rend line"
  shows "scan_run v line col False =
    ([scope_name v (rbegin line + col)],
     length (takeWhile (\<lambda>q. scope_name v q = scope_name v (rbegin line + col))
       [rbegin line + col..rend line]))"
proof -
  from assms have "[rbegin line + col..rend line]
      = (rbegin line + col) # [rbegin line + col + 1..rend line]"
    by (simp add: upto_rec1)
  then show ?thesis
    by (simp add: scan_run_def scan_loop_ref Let_def)
qed

lemma scan_run_forced:
  assumes "rbegin line + col \<le> rend line"
  shows "scan_run v line col True = ([scope_name v (rbegin line + col)], 1)"
proof -
  from assms have "[rbegin line + col..rend line]
      = (rbegin line + col) # [rbegin line + col + 1..rend line]"
    by (simp add: upto_rec1)
  then show ?thesis
    by (simp add: scan_run_def scan_loop_forced)
qed

lemma scan_run_empty:
  assumes "rend line < rbegin line + col"
  shows "scan_run v line col t = ([], 0)"
  using assms by (simp add: scan_run_def)

lemma takeWhile_run:
  fixes a b :: int
  assumes "n = length (takeWhile P [a..b])" and ab: "a \<le> b"
  shows "a + int n \<le> b + 1" and "\<forall>k<n. P (a + int k)"
    and "a + int n \<le> b \<longrightarrow> \<not> P (a + int n)"
proof -
  have len: "n \<le> length [a..b]" unfolding assms by (rule length_takeWhile_le)
  with ab show "a + int n \<le> b + 1" by simp
  show "\<forall>k<n. P (a + int k)"
  proof (intro allI impI)
    fix k assume k: "k < n"
    then have "takeWhile P [a..b] ! k \<in> set (takeWhile P [a..b])"
      using assms by simp
    then have "P (takeWhile P [a..b] ! k)" by (rule set_takeWhileD [THEN conjunct2])
    moreover have "takeWhile P [a..b] ! k = [a..b] ! k"
      using k assms by (simp add: takeWhile_nth)
    moreover have "[a..b] ! k = a + int k" using k len by simp
    ultimately show "P (a + int k)" by simp
  qed
  show "a + int n \<le> b \<longrightarrow> \<not> P (a + int n)"
  proof
    assume "a + int n \<le> b"
    then have lt: "n < length [a..b]" by simp
    then have "\<not> P ([a..b] ! n)" using assms nth_length_takeWhile by blast
    moreover have "[a..b] ! n = a + int n" using lt by simp
    ultimately show "\<not> P (a + int n)" by simp
  qed
qed

text \<open>
  C3. When the scan is not forced to one column, and the starting column lies on the
  tested line (its position is at most the line's end), the scan over the positions up to
  and including the line's end collects the scope of the starting position as the only
  reference and returns the length \<open>n\<close> of the maximal run of positions from the start
  that carry that scope: the run is not empty, stays within the scanned positions,
  every position of it has the reference scope, the position after it is either past the
  line's end or has another scope, and no longer run of the reference scope starts there.
\<close>

theorem C3_scan_run_maximal:
  assumes "rbegin line + col \<le> rend line"
    and "scan_run v line col False = (scopes, n)"
  shows "scopes = [scope_name v (rbegin line + col)] \<and> 1 \<le> n
    \<and> rbegin line + col + int n \<le> rend line + 1
    \<and> (\<forall>k<n. scope_name v (rbegin line + col + int k) = scope_name v (rbegin line + col))
    \<and> (rbegin line + col + int n \<le> rend line \<longrightarrow>
          scope_name v (rbegin line + col + int n) \<noteq> scope_name v (rbegin line + col))
    \<and> (\<forall>m. rbegin line + col + int m \<le> rend line + 1 \<and>
          (\<forall>k<m. scope_name v (rbegin line + col + int k) = scope_name v (rbegin line + col))
          \<longrightarrow> m \<le> n)"
proof -
  define a where "a = rbegin line + col"
  define P where "P = (\<lambda>q. scope_name v q = scope_name v a)"
  have ab: "a \<le> rend line" using assms(1) by (simp add: a_def)
  from assms have sc: "scopes = [scope_name v a]"
    and n: "n = length (takeWhile P [a..rend line])"
    by (simp_all add: scan_run_takeWhile a_def P_def)
  have up: "[a..rend line] = a # [a + 1..rend line]" using ab by (simp add: upto_rec1)
  have one: "1 \<le> n" unfolding n up by (simp add: P_def)
  note run = takeWhile_run [OF n ab]
  have stop: "a + int n \<le> rend line \<longrightarrow> \<not> P (a + int n)" by (rule run(3))
  have maxi: "\<forall>m. a + int m \<le> rend line + 1 \<and> (\<forall>k<m. P (a + int k)) \<longrightarrow> m \<le> n"
  proof (intro allI impI)
    fix m assume m: "a + int m \<le> rend line + 1 \<and> (\<forall>k<m. P (a + int k))"
    show "m \<le> n"
    proof (rule ccontr)
      assume "\<not> m \<le> n"
      then have nm: "n < m" by simp
      with m have "P (a + int n)" by blast
      moreover from nm m have "a + int n \<le> rend line" by simp
      ultimately show False using stop by blast
    qed
  qed
  from sc one run(1) run(2) stop maxi show ?thesis
    unfolding a_def P_def by simp
qed

theorem C3_scan_run_maximal_witness:
  "rbegin (Region 18 21) + 0 \<le> rend (Region 18 21)
   \<and> scan_run two_scope_view (Region 18 21) 0 False = ([''source.x a''], 2)
   \<and> scope_name two_scope_view 19 = scope_name two_scope_view 18
   \<and> scope_name two_scope_view 20 \<noteq> scope_name two_scope_view 18"
proof -
  have h1: "rbegin (Region 18 21) + 0 \<le> rend (Region 18 21)" by simp
  have h2: "scan_run two_scope_view (Region 18 21) 0 False = ([''source.x a''], 2)"
    by code_simp
  from C3_scan_run_maximal [OF h1 h2]
  have "(\<forall>k<2. scope_name two_scope_view (18 + int k) = scope_name two_scope_view 18)
      \<and> scope_name two_scope_view 20 \<noteq> scope_name two_scope_view 18"
    by simp
  then have "scope_name two_scope_view (18 + int 1) = scope_name two_scope_view 18
      \<and> scope_name two_scope_view 20 \<noteq> scope_name two_scope_view 18"
    by (metis one_less_numeral_iff semiring_norm(76))
  with h1 h2 show ?thesis by simp
qed

section \<open>The suggestion command: exceptions\<close>

lemma run_not_test_file:
  assumes "\<not> is_syntax_test_file (view_replace_sel v character)"
  shows "SuggestSyntaxTest_run score v character = Inr (view_replace_sel v character)"
  using assms by (simp add: SuggestSyntaxTest_run_def suggest_after_trigger_def)

lemma walker_raises_without_declaration:
  assumes "is_syntax_test_file v" and "fst (get_syntax_test_tokens v) = None"
    and "0 \<le> rbegin (sel0 v)"
  shows "get_details_of_line_being_tested v = Inl AttributeError"
proof -
  have "line_region (get_details_of_test_assertion_line v (rbegin (sel0 v))) = None"
    using assms(2) by (simp add: get_details_of_test_assertion_line_def no_details_def)
  moreover have "\<not> rbegin (sel0 v) < 0" using assms(3) by simp
  ultimately have "walk_loop v (rbegin (sel0 v)) True [] None = Inl AttributeError"
    by (simp add: walk_loop_raise)
  with assms(1) show ?thesis by (simp add: get_details_of_line_being_tested_def)
qed

lemma named_view_raises:
  "is_syntax_test_file named_view"
  "get_syntax_test_tokens named_view = (None, None)"
  "on_selection_modified_async named_view = Inl AttributeError"
  by code_simp+

text \<open>
  C1. The claim says the command raises no exception, and in particular none when the
  collected run is empty. Whenever the walker returns an empty run, as it does with the
  cursor on a code line of a test file, the command raises \<open>IndexError\<close> at \<open>lines[0]\<close>.
\<close>

theorem C1_run_raises_on_empty_run:
  assumes "get_details_of_line_being_tested (view_replace_sel v character) = Inr (Some [], tested)"
  shows "SuggestSyntaxTest_run score v character = Inl IndexError"
proof -
  have "is_syntax_test_file (view_replace_sel v character)"
    using assms by (rule walker_file(1))
  with assms show ?thesis
    by (simp add: SuggestSyntaxTest_run_def suggest_after_trigger_def end_token_suffix_def
        scan_setup_def split: option.splits)
qed

theorem C1_run_raises_on_empty_run_witness:
  "get_details_of_line_being_tested (view_replace_sel code_line_view ''^'')
     = Inr (Some [], Some (Region 18 22))
   \<and> SuggestSyntaxTest_run score_all code_line_view ''^'' = Inl IndexError"
proof -
  have h: "get_details_of_line_being_tested (view_replace_sel code_line_view ''^'')
      = Inr (Some [], Some (Region 18 22))"
    by code_simp
  from C1_run_raises_on_empty_run [OF h] h show ?thesis by simp
qed

lemma zero_width_scan:
  assumes "assertion_colrange d = Some (c, c)" and "rbegin line + c \<le> rend line"
  shows "scan_setup v insert_at (d # ds) = Inr (c, True, ds)"
    and "scan_run v line c True = ([scope_name v (rbegin line + c)], 1)"
    and "merge_scopes v line ds True scopes = Inr scopes"
  using assms by (simp_all add: scan_setup_def scan_run_forced merge_scopes_def)

text \<open>
  C2. The claim says that the command completes, with an empty scope text, when the
  reduction to shared scopes keeps no component. Whenever the command reaches that step
  and the reduction keeps nothing, it raises \<open>IndexError\<close> at \<open>shared_scopes[0]\<close>.
\<close>

theorem C2_empty_shared_scopes_raise:
  assumes "get_details_of_line_being_tested (view_replace_sel v character)
      = Inr (Some lines, Some line)"
    and "end_token_suffix (view_replace_sel v character) lines = Inr end_token"
    and "scan_setup (view_replace_sel v character) (rbegin (sel0 (view_replace_sel v character)))
      lines = Inr (col, t, lines')"
    and "scan_run (view_replace_sel v character) line col t = (scopes, len)"
    and "merge_scopes (view_replace_sel v character) line lines' t scopes = Inr scopes'"
    and "shared_scopes score scopes' = Inr []"
  shows "SuggestSyntaxTest_run score v character = Inl IndexError"
proof -
  have "is_syntax_test_file (view_replace_sel v character)"
    using assms(1) by (rule walker_file(1))
  with assms show ?thesis
    by (simp add: SuggestSyntaxTest_run_def suggest_after_trigger_def scope_text_def)
qed

theorem C2_empty_shared_scopes_raise_witness:
  "get_details_of_line_being_tested (view_replace_sel two_scope_view ''^'')
     = Inr (Some [\<lparr>comment_marker_match = Some (0, 1), assertion_colrange = Some (2, 3),
                    line_region = Some (Region 22 25)\<rparr>], Some (Region 18 21))
   \<and> scan_run (view_replace_sel two_scope_view ''^'') (Region 18 21) 2 False
     = ([''source.x b''], 2)
   \<and> shared_scopes score_none [''source.x b''] = Inr []
   \<and> SuggestSyntaxTest_run score_none two_scope_view ''^'' = Inl IndexError"
proof -
  define d where "d = \<lparr>comment_marker_match = Some (0, 1), assertion_colrange = Some (2, 3),
    line_region = Some (Region 22 25)\<rparr>"
  have h1: "get_details_of_line_being_tested (view_replace_sel two_scope_view ''^'')
      = Inr (Some [d], Some (Region 18 21))"
    unfolding d_def by code_simp
  have h2: "end_token_suffix (view_replace_sel two_scope_view ''^'') [d] = Inr []"
    unfolding d_def by code_simp
  have h3: "scan_setup (view_replace_sel two_scope_view ''^'')
      (rbegin (sel0 (view_replace_sel two_scope_view ''^''))) [d] = Inr (2, False, [d])"
    unfolding d_def by code_simp
  have h4: "scan_run (view_replace_sel two_scope_view ''^'') (Region 18 21) 2 False
      = ([''source.x b''], 2)"
    by code_simp
  have h5: "merge_scopes (view_replace_sel two_scope_view ''^'') (Region 18 21) [d] False
      [''source.x b''] = Inr [''source.x b'']"
    unfolding d_def by code_simp
  have h6: "shared_scopes score_none [''source.x b''] = Inr []"
    by code_simp
  from C2_empty_shared_scopes_raise [OF h1 h2 h3 h4 h5 h6] h1 h4 h6 show ?thesis
    unfolding d_def by simp
qed

text \<open>
  C4. The claim says that with a zero-width colrange the computed length is exactly 1.
  When the comment token of the \<open><-\<close> line starts past the end of the tested line,
  the scan range is empty: the length stays 0, no scope is collected, and the command
  raises \<open>IndexError\<close> at \<open>scopes[0]\<close>.
\<close>

theorem C4_indented_arrow_raises:
  "get_details_of_line_being_tested (view_replace_sel indented_arrow_view ''^'')
     = Inr (Some [\<lparr>comment_marker_match = Some (4, 5), assertion_colrange = Some (4, 4),
                    line_region = Some (Region 21 31)\<rparr>], Some (Region 18 20))
   \<and> scan_run (view_replace_sel indented_arrow_view ''^'') (Region 18 20) 4 True = ([], 0)
   \<and> SuggestSyntaxTest_run score_all indented_arrow_view ''^'' = Inl IndexError"
proof -
  have "get_details_of_line_being_tested (view_replace_sel indented_arrow_view ''^'')
     = Inr (Some [\<lparr>comment_marker_match = Some (4, 5), assertion_colrange = Some (4, 4),
                    line_region = Some (Region 21 31)\<rparr>], Some (Region 18 20))"
    by code_simp
  moreover have "scan_run (view_replace_sel indented_arrow_view ''^'') (Region 18 20) 4 True
      = ([], 0)"
    by code_simp
  moreover have "map_sum id (\<lambda>_. ()) (SuggestSyntaxTest_run score_all indented_arrow_view ''^'')
      = Inl IndexError"
    by code_simp
  then have "SuggestSyntaxTest_run score_all indented_arrow_view ''^'' = Inl IndexError"
    by (cases "SuggestSyntaxTest_run score_all indented_arrow_view ''^''") auto
  ultimately show ?thesis by simp
qed

section \<open>The walk\<close>

text \<open>
  C5. In a test file with a start token, at a line without an assertion colrange: on the
  first iteration a comment line is appended and the walk goes on above it; on a later
  iteration, or when the line is no comment line, the walk stops and returns the region
  of that line. In the run the walker returns, every line after the first has an
  assertion colrange, and the first has one or is a comment line.
\<close>

theorem C5_walk_first_line_tolerance:
  assumes "is_syntax_test_file v" and "fst (get_syntax_test_tokens v) = Some tok"
    and "0 \<le> pos" and "d = get_details_of_test_assertion_line v pos"
    and "assertion_colrange d = None"
  shows "(first_line \<and> comment_marker_match d \<noteq> None \<longrightarrow>
           walk_loop v pos first_line lines prev
             = walk_loop v (rbegin (view_line v pos) - 1) False (lines @ [d]) (Some d))
    \<and> (\<not> first_line \<or> comment_marker_match d = None \<longrightarrow>
           walk_loop v pos first_line lines prev = Inr (lines, Some (view_line v pos)))
    \<and> (\<forall>ls r. get_details_of_line_being_tested v = Inr (Some ls, r) \<longrightarrow>
           list_all (\<lambda>d. assertion_colrange d \<noteq> None) (tl ls)
           \<and> (ls \<noteq> [] \<longrightarrow> assertion_colrange (hd ls) \<noteq> None \<or> comment_marker_match (hd ls) \<noteq> None))"
proof -
  have np: "\<not> pos < 0" using assms(3) by simp
  have lr: "line_region d = Some (view_line v pos)"
    unfolding assms(4) using assms(1,2) by (rule details_region_valid)
  have a: "first_line \<and> comment_marker_match d \<noteq> None \<longrightarrow>
           walk_loop v pos first_line lines prev
             = walk_loop v (rbegin (view_line v pos) - 1) False (lines @ [d]) (Some d)"
    using walk_loop_append [OF np assms(4) lr] by blast
  have b: "\<not> first_line \<or> comment_marker_match d = None \<longrightarrow>
           walk_loop v pos first_line lines prev = Inr (lines, Some (view_line v pos))"
    using walk_loop_stop [OF np assms(4) lr assms(5)] by blast
  have c: "\<forall>ls r. get_details_of_line_being_tested v = Inr (Some ls, r) \<longrightarrow>
           list_all (\<lambda>d. assertion_colrange d \<noteq> None) (tl ls)
           \<and> (ls \<noteq> [] \<longrightarrow> assertion_colrange (hd ls) \<noteq> None \<or> comment_marker_match (hd ls) \<noteq> None)"
  proof (intro allI impI)
    fix ls r assume "get_details_of_line_being_tested v = Inr (Some ls, r)"
    then have "walk_loop v (rbegin (sel0 v)) True [] None = Inr (ls, r)"
      by (rule walker_file(2))
    from walk_loop_appended [OF this]
    show "list_all (\<lambda>d. assertion_colrange d \<noteq> None) (tl ls)
           \<and> (ls \<noteq> [] \<longrightarrow> assertion_colrange (hd ls) \<noteq> None \<or> comment_marker_match (hd ls) \<noteq> None)"
      by auto
  qed
  from a b c show ?thesis by blast
qed

theorem C5_walk_first_line_tolerance_witness:
  "is_syntax_test_file run_view \<and> fst (get_syntax_test_tokens run_view) = Some ''#''
   \<and> assertion_colrange (get_details_of_test_assertion_line run_view 21) = None
   \<and> walk_loop run_view 21 False [] None = Inr ([], Some (Region 18 21))
   \<and> get_details_of_line_being_tested run_view
     = Inr (Some [\<lparr>comment_marker_match = Some (0, 1), assertion_colrange = None,
                    line_region = Some (Region 29 30)\<rparr>,
                  \<lparr>comment_marker_match = Some (0, 1), assertion_colrange = Some (2, 4),
                    line_region = Some (Region 22 28)\<rparr>], Some (Region 18 21))"
proof -
  have h1: "is_syntax_test_file run_view" by code_simp
  have h2: "fst (get_syntax_test_tokens run_view) = Some ''#''" by code_simp
  have h3: "(0::int) \<le> 21" by simp
  have h5: "assertion_colrange (get_details_of_test_assertion_line run_view 21) = None"
    by code_simp
  have vl: "view_line run_view 21 = Region 18 21" by code_simp
  have w: "get_details_of_line_being_tested run_view
     = Inr (Some [\<lparr>comment_marker_match = Some (0, 1), assertion_colrange = None,
                    line_region = Some (Region 29 30)\<rparr>,
                  \<lparr>comment_marker_match = Some (0, 1), assertion_colrange = Some (2, 4),
                    line_region = Some (Region 22 28)\<rparr>], Some (Region 18 21))"
    by code_simp
  from C5_walk_first_line_tolerance [OF h1 h2 h3 refl h5, of False "[]" None]
  have "walk_loop run_view 21 False [] None = Inr ([], Some (view_line run_view 21))"
    by blast
  with h1 h2 h5 vl w show ?thesis by simp
qed

text \<open>
  C6. In a test file with a start token the position examined next, one before the start
  of the current line, is strictly smaller than the current one; at a negative position
  the loop returns the lines collected and the region of the last line examined; and from
  a cursor position that is not negative the walker returns a run and a tested-line
  region, after at most as many iterations as the cursor position plus one.
\<close>

theorem C6_walk_terminates:
  assumes "is_syntax_test_file v" and "fst (get_syntax_test_tokens v) = Some tok"
  shows "(0 \<le> pos \<longrightarrow> rbegin (view_line v pos) - 1 < pos)
    \<and> (pos < 0 \<longrightarrow> walk_loop v pos first_line lines (Some d) = Inr (lines, line_region d))
    \<and> (0 \<le> rbegin (sel0 v) \<longrightarrow>
         (\<exists>ls r. get_details_of_line_being_tested v = Inr (Some ls, Some r)
            \<and> int (length ls) \<le> rbegin (sel0 v) + 1))"
proof -
  have a: "0 \<le> pos \<longrightarrow> rbegin (view_line v pos) - 1 < pos"
    using rbegin_view_line_le [of pos v] by linarith
  have b: "pos < 0 \<longrightarrow> walk_loop v pos first_line lines (Some d) = Inr (lines, line_region d)"
    by (simp add: walk_loop_top)
  have c: "0 \<le> rbegin (sel0 v) \<longrightarrow>
         (\<exists>ls r. get_details_of_line_being_tested v = Inr (Some ls, Some r)
            \<and> int (length ls) \<le> rbegin (sel0 v) + 1)"
  proof
    assume nn: "0 \<le> rbegin (sel0 v)"
    then have "0 \<le> rbegin (sel0 v) \<or> (\<exists>d lr. None = Some d \<and> line_region d = Some lr)"
      by simp
    from walk_loop_returns [OF assms this]
    obtain ls r where w: "walk_loop v (rbegin (sel0 v)) True [] None = Inr (ls, Some r)"
      by blast
    from walk_loop_appended [OF w] nn have "int (length ls) \<le> rbegin (sel0 v) + 1"
      by auto
    moreover from w assms(1) have "get_details_of_line_being_tested v = Inr (Some ls, Some r)"
      by (simp add: get_details_of_line_being_tested_def)
    ultimately show "\<exists>ls r. get_details_of_line_being_tested v = Inr (Some ls, Some r)
            \<and> int (length ls) \<le> rbegin (sel0 v) + 1"
      by blast
  qed
  from a b c show ?thesis by blast
qed

theorem C6_walk_terminates_witness:
  "is_syntax_test_file run_view \<and> fst (get_syntax_test_tokens run_view) = Some ''#''
   \<and> rbegin (view_line run_view 30) - 1 < 30
   \<and> view_line run_view 30 = Region 29 30
   \<and> walk_loop run_view (- 1) False [] (Some no_details) = Inr ([], None)"
proof -
  have h1: "is_syntax_test_file run_view" by code_simp
  have h2: "fst (get_syntax_test_tokens run_view) = Some ''#''" by code_simp
  have vl: "view_line run_view 30 = Region 29 30" by code_simp
  from C6_walk_terminates [OF h1 h2, of 30 False "[]" no_details]
  have a: "rbegin (view_line run_view 30) - 1 < 30" by simp
  from C6_walk_terminates [OF h1 h2, of "- 1" False "[]" no_details]
  have b: "walk_loop run_view (- 1) False [] (Some no_details) = Inr ([], line_region no_details)"
    by simp
  from a b h1 h2 vl show ?thesis by (simp add: no_details_def)
qed

section \<open>The sentinel colrange\<close>

text \<open>
  C10. When the nearest line of the run is a comment line without an assertion colrange,
  the colrange read is \<open>(-1, -1)\<close>: the scan starts at column \<open>-1\<close> with the forced
  stop, so the length is 1 and the only scope collected is the one at the position before
  the tested line's start; the nearest line is dropped and nothing is merged; and the
  command goes on from there with that scope and that length.
\<close>

theorem C10_sentinel_colrange:
  assumes "get_details_of_line_being_tested v = Inr (Some (d # ds), Some line)"
    and "comment_marker_match d \<noteq> None" and "assertion_colrange d = None"
  shows "scan_setup v insert_at (d # ds) = Inr (- 1, True, ds)
    \<and> scan_run v line (- 1) True = ([scope_name v (rbegin line - 1)], 1)
    \<and> merge_scopes v line ds True [scope_name v (rbegin line - 1)]
        = Inr [scope_name v (rbegin line - 1)]
    \<and> suggest_after_trigger score v character =
        (case end_token_suffix v (d # ds) of
           Inl e \<Rightarrow> Inl e
         | Inr end_token \<Rightarrow>
             (case shared_scopes score [scope_name v (rbegin line - 1)] of
                Inl e \<Rightarrow> Inl e
              | Inr shared \<Rightarrow>
                  (case scope_text v shared of
                     Inl e \<Rightarrow> Inl e
                   | Inr scope \<Rightarrow>
                       Inr (insert_suggestion v (rbegin (sel0 v)) character 1 scope end_token))))"
proof -
  have tf: "is_syntax_test_file v" using assms(1) by (rule walker_file(1))
  have "rbegin line \<le> rend line" using assms(1) by (rule walker_region(1))
  then have "rbegin line + (- 1) \<le> rend line" by simp
  then have scan: "scan_run v line (- 1) True = ([scope_name v (rbegin line - 1)], 1)"
    by (simp add: scan_run_forced)
  have st: "\<And>p. scan_setup v p (d # ds) = Inr (- 1, True, ds)"
    using assms(3) by (simp add: scan_setup_def)
  have mg: "\<And>s. merge_scopes v line ds True s = Inr s"
    by (simp add: merge_scopes_def)
  have "suggest_after_trigger score v character =
        (case end_token_suffix v (d # ds) of
           Inl e \<Rightarrow> Inl e
         | Inr end_token \<Rightarrow>
             (case shared_scopes score [scope_name v (rbegin line - 1)] of
                Inl e \<Rightarrow> Inl e
              | Inr shared \<Rightarrow>
                  (case scope_text v shared of
                     Inl e \<Rightarrow> Inl e
                   | Inr scope \<Rightarrow>
                       Inr (insert_suggestion v (rbegin (sel0 v)) character 1 scope end_token))))"
    using tf assms(1) scan
    by (simp add: suggest_after_trigger_def st mg split: sum.splits)
  with scan st mg show ?thesis by simp
qed

theorem C10_sentinel_colrange_witness:
  "get_details_of_line_being_tested (view_replace_sel in_progress_view ''^'')
     = Inr (Some [\<lparr>comment_marker_match = Some (0, 1), assertion_colrange = None,
                    line_region = Some (Region 22 26)\<rparr>], Some (Region 18 21))
   \<and> scan_run (view_replace_sel in_progress_view ''^'') (Region 18 21) (- 1) True
     = ([''source.x a''], 1)"
proof -
  define d where "d = \<lparr>comment_marker_match = Some (0, 1), assertion_colrange = None,
    line_region = Some (Region 22 26)\<rparr>"
  have h1: "get_details_of_line_being_tested (view_replace_sel in_progress_view ''^'')
      = Inr (Some (d # []), Some (Region 18 21))"
    unfolding d_def by code_simp
  have h2: "comment_marker_match d \<noteq> None" by (simp add: d_def)
  have h3: "assertion_colrange d = None" by (simp add: d_def)
  have sc: "scope_name (view_replace_sel in_progress_view ''^'') (rbegin (Region 18 21) - 1)
      = ''source.x a''"
    by code_simp
  from C10_sentinel_colrange [OF h1 h2 h3]
  have "scan_run (view_replace_sel in_progress_view ''^'') (Region 18 21) (- 1) True
      = ([scope_name (view_replace_sel in_progress_view ''^'') (rbegin (Region 18 21) - 1)], 1)"
    by blast
  with sc h1 show ?thesis unfolding d_def by simp
qed

section \<open>The highlight: the selected carets\<close>

lemma match_only_carets_iff:
  "match_only_carets s \<longleftrightarrow>
     (\<exists>n. 0 < n \<and> (s = replicate n CHR ''^'' \<or> s = replicate n CHR ''^'' @ [NL]))"
proof
  assume m: "match_only_carets s"
  define n where "n = length (takeWhile is_caret s)"
  have "\<forall>c \<in> set (takeWhile is_caret s). c = CHR ''^''"
    by (auto simp: is_caret_def dest: set_takeWhileD)
  then have tw: "takeWhile is_caret s = replicate n CHR ''^''"
    unfolding n_def by (simp add: replicate_length_same)
  have "takeWhile is_caret s @ dropWhile is_caret s = s" by (rule takeWhile_dropWhile_id)
  then have s: "replicate n CHR ''^'' @ dropWhile is_caret s = s" unfolding tw .
  from m have n: "0 < n" and d: "dropWhile is_caret s = [] \<or> dropWhile is_caret s = [NL]"
    unfolding match_only_carets_def Let_def n_def by blast+
  from d have "s = replicate n CHR ''^'' \<or> s = replicate n CHR ''^'' @ [NL]"
  proof
    assume "dropWhile is_caret s = []"
    with s show ?thesis by simp
  next
    assume "dropWhile is_caret s = [NL]"
    with s have "replicate n CHR ''^'' @ [NL] = s" by simp
    then show ?thesis by blast
  qed
  with n show "\<exists>n. 0 < n \<and> (s = replicate n CHR ''^'' \<or> s = replicate n CHR ''^'' @ [NL])"
    by blast
next
  assume "\<exists>n. 0 < n \<and> (s = replicate n CHR ''^'' \<or> s = replicate n CHR ''^'' @ [NL])"
  then obtain n where n: "0 < n"
    and s: "s = replicate n CHR ''^'' @ [] \<or> s = replicate n CHR ''^'' @ [NL]"
    by auto
  have all: "list_all is_caret (replicate n CHR ''^'')" by (simp add: list_all_iff is_caret_def)
  have nl: "[NL] = [] \<or> \<not> is_caret (hd [NL])" by (simp add: is_caret_def)
  from s show "match_only_carets s"
  proof
    assume e: "s = replicate n CHR ''^'' @ []"
    have "takeWhile is_caret s = replicate n CHR ''^''" "dropWhile is_caret s = []"
      unfolding e using all by (rule takeWhile_stop, simp)+
    with n show ?thesis by (simp add: match_only_carets_def Let_def)
  next
    assume e: "s = replicate n CHR ''^'' @ [NL]"
    have "takeWhile is_caret s = replicate n CHR ''^''" "dropWhile is_caret s = [NL]"
      unfolding e using all nl by (rule takeWhile_stop)+
    with n show ?thesis by (simp add: match_only_carets_def Let_def)
  qed
qed

lemma highlight_region:
  assumes "get_details_of_line_being_tested v = Inr (Some (d # ds), Some lr)"
    and "assertion_colrange d = Some (c0, c1)"
  shows "on_selection_modified_async v =
    Inr (Add (if \<not> rempty (sel0 v) \<and> match_only_carets (view_substr v (sel0 v))
              then Region (rbegin lr + view_col v (rbegin (sel0 v)))
                     (rbegin lr + view_col v (rend (sel0 v)))
              else Region (rbegin lr + c0) (rbegin lr + (if c1 = c0 then c1 + 1 else c1))))"
  using assms by (simp add: on_selection_modified_async_def Let_def)

text \<open>
  C9. The claim says that a selection whose text is not made of carets only leaves the
  highlight on the assertion's colrange. \<open>$\<close> also matches before a newline that ends
  the text, so a selection of the carets and the newline after them counts as carets
  only: the highlighted columns run from the selection's start column to column 0 of the
  next line, not over the colrange \<open>(2, 5)\<close>.
\<close>

theorem C9_caret_selection_with_newline:
  "view_substr caret_selection_view (sel0 caret_selection_view) = ''^^^'' @ [NL]
   \<and> get_details_of_line_being_tested caret_selection_view
     = Inr (Some [\<lparr>comment_marker_match = Some (0, 1), assertion_colrange = Some (2, 5),
                    line_region = Some (Region 27 32)\<rparr>], Some (Region 18 26))
   \<and> on_selection_modified_async caret_selection_view = Inr (Add (Region 20 18))"
  by code_simp

end
